theory Spec2Isabelle
  imports Main "HOL-Library.Word" "HOL-Library.Signed_Division"
begin

unbundle bit_operations_syntax

section \<open>Machine types\<close>

text \<open>
  The program is compiled for a platform where \<open>unsigned\<close> and \<open>int\<close> have 32 bits
  (\<open>archbits\<close> refuses anything else), \<open>unsigned long long\<close> has 64 bits and
  \<open>unsigned char\<close> has 8 bits.
\<close>

type_synonym u8 = "8 word"
type_synonym u32 = "32 word"
type_synonym u64 = "64 word"

lemma unat_u32_lt: "unat (a::u32) < 4294967296"
  using unsigned_less[of a] by simp

lemma unat_u32_Suc: "unat (i::u32) < unat (f::u32) \<Longrightarrow> unat (i + 1) = Suc (unat i)"
  using unat_u32_lt[of f] by (simp add: unat_word_ariths)

section \<open>archbits and bitsize\<close>

text \<open>\<open>archbits\<close> returns 31 on the only platform it accepts.\<close>

definition archbits :: nat where
  "archbits = 31"

text \<open>
  \<open>for (i = archbits(); i != 0; i--) if (number >> i) return i + 1; return 0;\<close>
  The counter runs from 31 down to 1; the body is never run with \<open>i = 0\<close>.
\<close>

fun bitsize_loop :: "nat \<Rightarrow> u32 \<Rightarrow> nat" where
  "bitsize_loop 0 number = 0"
| "bitsize_loop (Suc i) number =
     (if drop_bit (Suc i) number \<noteq> 0 then Suc i + 1 else bitsize_loop i number)"

definition bitsize :: "u32 \<Rightarrow> nat" where
  "bitsize number = bitsize_loop archbits number"

text \<open>The minimum number of bits needed to write a natural number in binary.\<close>

fun bitlength :: "nat \<Rightarrow> nat" where
  "bitlength n = (if n = 0 then 0 else Suc (bitlength (n div 2)))"

declare bitlength.simps [simp del]

section \<open>Properties of bitsize\<close>

lemma bitlength_bounds: "2 ^ k \<le> n \<Longrightarrow> n < 2 ^ Suc k \<Longrightarrow> bitlength n = Suc k"
proof (induction k arbitrary: n)
  case 0
  then have "n = 1" by simp
  then show ?case by (simp add: bitlength.simps)
next
  case (Suc k)
  have "2 ^ k \<le> n div 2" using Suc.prems(1) by simp
  moreover have "n div 2 < 2 ^ Suc k" using Suc.prems(2) by simp
  ultimately have "bitlength (n div 2) = Suc k" by (rule Suc.IH)
  moreover have "n \<noteq> 0" using Suc.prems(1) by (cases "n = 0") simp_all
  ultimately show ?case by (subst bitlength.simps) simp
qed

lemma bitlength_less: "n < 2 ^ bitlength n"
proof (induction n rule: bitlength.induct)
  case (1 n)
  show ?case
  proof (cases "n = 0")
    case True then show ?thesis by simp
  next
    case False
    with 1 have "n div 2 < 2 ^ bitlength (n div 2)" by simp
    then have "n < 2 * 2 ^ bitlength (n div 2)" by linarith
    with False show ?thesis by (subst bitlength.simps) simp
  qed
qed

lemma bitlength_ge: "0 < n \<Longrightarrow> 2 ^ (bitlength n - 1) \<le> n"
proof (induction n rule: bitlength.induct)
  case (1 n)
  show ?case
  proof (cases "n div 2 = 0")
    case True
    with 1(2) have "n = 1" by presburger
    then show ?thesis by (simp add: bitlength.simps)
  next
    case False
    with 1 have ih: "2 ^ (bitlength (n div 2) - 1) \<le> n div 2" by simp
    have pos: "0 < bitlength (n div 2)" using False by (subst bitlength.simps) simp
    have "bitlength n = Suc (bitlength (n div 2))" using 1(2) by (subst bitlength.simps) simp
    then have "2 ^ (bitlength n - 1) = 2 * 2 ^ (bitlength (n div 2) - 1)"
      using pos by (cases "bitlength (n div 2)") simp_all
    also have "\<dots> \<le> 2 * (n div 2)" using ih by simp
    also have "\<dots> \<le> n" by simp
    finally show ?thesis .
  qed
qed

lemma drop_bit_u32_neq0: "(drop_bit i (x::u32) \<noteq> 0) = (2 ^ i \<le> unat x)"
proof -
  have "(drop_bit i x = 0) = (unat (drop_bit i x) = 0)" by (simp add: unat_eq_0)
  also have "\<dots> = (unat x div 2 ^ i = 0)" by (simp only: unat_drop_bit_eq drop_bit_nat_def)
  also have "\<dots> = (unat x < 2 ^ i)" by (simp add: div_eq_0_iff)
  finally show ?thesis by auto
qed

lemma bitsize_loop_eq:
  "unat x < 2 ^ Suc i \<Longrightarrow> bitsize_loop i x = (if 2 \<le> unat x then bitlength (unat x) else 0)"
proof (induction i)
  case 0
  then show ?case by simp
next
  case (Suc i)
  show ?case
  proof (cases "2 ^ Suc i \<le> unat x")
    case True
    then have "bitlength (unat x) = Suc (Suc i)" using Suc.prems by (intro bitlength_bounds) simp_all
    moreover have "(2::nat) \<le> 2 ^ Suc i" by simp
    then have "2 \<le> unat x" using True by linarith
    ultimately show ?thesis using True by (simp add: drop_bit_u32_neq0 del: power_Suc)
  next
    case False
    then have "unat x < 2 ^ Suc i" by simp
    from Suc.IH[OF this] False show ?thesis by (simp add: drop_bit_u32_neq0 del: power_Suc)
  qed
qed

lemma bitsize_eq: "bitsize x = (if 2 \<le> unat x then bitlength (unat x) else 0)"
proof -
  have "unat x < 2 ^ Suc 31" using unsigned_less[of x] by simp
  then show ?thesis unfolding bitsize_def archbits_def by (rule bitsize_loop_eq)
qed



section \<open>Errors\<close>

text \<open>
  Every error path of the program prints a message and exits with the failure status.
  \<open>Fault\<close> stands for what C leaves undefined and the hardware answers with a trap:
  a division by zero, an access outside an allocated block, a shift by the width of the
  type or more.
\<close>

datatype error = OverflowError | NoValidExponentError | CorruptFileError | NoPrimeFoundError | Fault

section \<open>ab_mod_n\<close>

text \<open>
  \<open>A\<close>, \<open>B\<close>, \<open>N\<close>, \<open>C\<close> and \<open>D\<close> are \<open>unsigned long long\<close>. The mask \<open>1 << i\<close> is an
  \<open>int\<close>; it is sign-extended to 64 bits before the bitwise and with \<open>B\<close> (for
  \<open>i = 31\<close> the mask is \<open>INT_MIN\<close>, which extends to \<open>0xFFFFFFFF80000000\<close>).
  The loop body runs for \<open>i = 31, 30, \<dots>, 0\<close> and leaves after the body for \<open>i = 0\<close>.
\<close>

fun ab_mod_n_loop :: "u64 \<Rightarrow> u64 \<Rightarrow> u64 \<Rightarrow> nat \<Rightarrow> u64 \<Rightarrow> u64 \<Rightarrow> u64" where
  "ab_mod_n_loop A B N i C D =
     (let C1 = C * 2;
          D1 = (D * D) mod N;
          taken = (B AND scast (push_bit i (1 :: u32)) \<noteq> 0);
          C2 = (if taken then C1 + 1 else C1);
          D2 = (if taken then (D1 * A) mod N else D1)
      in if i = 0 then D2 else ab_mod_n_loop A B N (i - 1) C2 D2)"

declare ab_mod_n_loop.simps [simp del]

text \<open>With \<open>n = 0\<close> the first \<open>% N\<close> divides by zero.\<close>

definition ab_mod_n :: "u32 \<Rightarrow> u32 \<Rightarrow> u32 \<Rightarrow> error + u32" where
  "ab_mod_n a b n =
     (if n = 0 then Inl Fault
      else Inr (ucast (ab_mod_n_loop (ucast a) (ucast b) (ucast n) archbits 0 1)))"

section \<open>is_prime and find_next_prime\<close>

text \<open>
  \<open>maxdiv = ceil((unsigned) sqrt(p))\<close>: the square root is taken in double precision,
  truncated to an \<open>unsigned\<close>, and \<open>ceil\<close> of a whole number changes nothing. A double
  holds every 32-bit \<open>p\<close> exactly and the correctly rounded root of a \<open>p\<close> below
  \<open>2^32\<close> never reaches the next whole number, so \<open>maxdiv\<close> is the floor of the exact
  square root. \<open>sqrt_floor\<close> computes that floor on natural numbers.
\<close>

definition sqrt_step :: "nat \<Rightarrow> nat \<Rightarrow> nat" where
  "sqrt_step n r = (if (r + 1) * (r + 1) \<le> n then r + 1 else r)"

fun sqrt_floor :: "nat \<Rightarrow> nat" where
  "sqrt_floor n = (if n = 0 then 0 else sqrt_step n (2 * sqrt_floor (n div 4)))"

declare sqrt_floor.simps [simp del]

text \<open>
  \<open>for (i = 2; i <= maxdiv; i++) if ((p % i) == 0) return 0; return 1;\<close>
  The counter stays below \<open>2^16 + 1\<close>, so it is a natural number here.
\<close>

function is_prime_loop :: "u32 \<Rightarrow> nat \<Rightarrow> nat \<Rightarrow> u32" where
  "is_prime_loop p maxdiv i =
     (if i \<le> maxdiv then (if unat p mod i = 0 then 0 else is_prime_loop p maxdiv (i + 1))
      else 1)"
  by pat_completeness auto
termination
  by (relation "measure (\<lambda>(p, maxdiv, i). Suc maxdiv - i)") auto

declare is_prime_loop.simps [simp del]

definition is_prime :: "u32 \<Rightarrow> u32" where
  "is_prime p = is_prime_loop p (sqrt_floor (unat p)) 2"

text \<open>
  \<open>find_next_prime\<close> makes \<open>n\<close> odd and tests \<open>n\<close>, \<open>n + 2\<close>, \<dots> while \<open>n + 1 != 0\<close>. It
  prints the prime and exits with success, or prints that none was found and exits with
  failure; the model returns the prime or \<open>NoPrimeFoundError\<close>.
\<close>

lemma is_prime_0: "is_prime 0 = 1"
  by (simp add: is_prime_def sqrt_floor.simps is_prime_loop.simps)

lemma find_next_prime_step:
  fixes n :: u32
  assumes "n + 1 \<noteq> 0" "n \<noteq> 0"
  shows "(if n + 2 = 0 then 0 else 4294967297 - unat (n + 2)) < 4294967297 - unat n"
proof (cases "n + 2 = 0")
  case True
  then show ?thesis using unat_u32_lt[of n] by simp
next
  case False
  have "unat n \<noteq> 4294967295"
  proof
    assume "unat n = 4294967295"
    then have "word_of_nat (unat n) = (word_of_nat 4294967295 :: u32)" by simp
    then have "n = 4294967295" by simp
    with assms(1) show False by simp
  qed
  moreover have "unat n \<noteq> 4294967294"
  proof
    assume "unat n = 4294967294"
    then have "word_of_nat (unat n) = (word_of_nat 4294967294 :: u32)" by simp
    then have "n = 4294967294" by simp
    with False show False by simp
  qed
  ultimately have "unat n + 2 < 4294967296" using unat_u32_lt[of n] by linarith
  then have "unat (n + 2) = unat n + 2" by (simp add: unat_word_ariths)
  then show ?thesis using False unat_u32_lt[of n] by simp
qed

function find_next_prime_loop :: "u32 \<Rightarrow> error + u32" where
  "find_next_prime_loop n =
     (if n + 1 \<noteq> 0 then (if is_prime n \<noteq> 0 then Inr n else find_next_prime_loop (n + 2))
      else Inl NoPrimeFoundError)"
  by pat_completeness auto
termination
proof (relation "measure (\<lambda>n. if n = 0 then 0 else 4294967297 - unat n)")
  fix n :: u32
  assume a: "n + 1 \<noteq> 0" "\<not> is_prime n \<noteq> 0"
  then have "n \<noteq> 0" using is_prime_0 by auto
  with a(1) show "(n + 2, n) \<in> measure (\<lambda>n. if n = 0 then 0 else 4294967297 - unat n)"
    using find_next_prime_step[of n] by simp
qed simp

declare find_next_prime_loop.simps [simp del]

definition find_next_prime :: "u32 \<Rightarrow> error + u32" where
  "find_next_prime n = find_next_prime_loop (if n AND 1 = 0 then n OR 1 else n)"

text \<open>What a prime number is: more than 1 and with no divisor strictly between 1 and itself.\<close>

definition prime_nat :: "nat \<Rightarrow> bool" where
  "prime_nat p = (1 < p \<and> list_all (\<lambda>m. \<not> m dvd p) [2..<p])"

section \<open>find_inverse and check_gcd\<close>

text \<open>
  \<open>for (i = 1; i < f; i++) if ((i * d) % f == 1) return i; return 0;\<close>
  All of it is \<open>unsigned\<close> arithmetic: the product \<open>i * d\<close> wraps around at \<open>2^32\<close>.
\<close>

function find_inverse_loop :: "u32 \<Rightarrow> u32 \<Rightarrow> u32 \<Rightarrow> u32" where
  "find_inverse_loop d f i =
     (if i < f then (if (i * d) mod f = 1 then i else find_inverse_loop d f (i + 1))
      else 0)"
  by pat_completeness auto
termination
proof (relation "measure (\<lambda>(d, f, i). unat f - unat i)")
  fix d f i :: u32
  assume "i < f"
  then have "unat i < unat f" by (simp add: word_less_nat_alt)
  moreover from this have "unat (i + 1) = Suc (unat i)"
    by (rule unat_u32_Suc)
  ultimately show "((d, f, i + 1), (d, f, i)) \<in> measure (\<lambda>(d, f, i). unat f - unat i)"
    by simp
qed simp

declare find_inverse_loop.simps [simp del]

definition find_inverse :: "u32 \<Rightarrow> u32 \<Rightarrow> u32" where
  "find_inverse d f = find_inverse_loop d f 1"

text \<open>
  The ten locals of \<open>check_gcd\<close> are \<open>int\<close>: 32-bit words read in two's complement
  (\<open>sint\<close>). Storing the \<open>unsigned\<close> arguments in them keeps the bits, sums and products
  wrap around, \<open>/\<close> truncates towards zero, and the result is converted back to
  \<open>unsigned\<close> bit for bit (\<open>f + y2\<close> is an \<open>unsigned\<close> sum). The division instruction
  traps on a divisor 0 and on the one quotient that does not fit, \<open>INT_MIN / -1\<close>: both
  are \<open>Fault\<close>.
\<close>

definition int_div :: "u32 \<Rightarrow> u32 \<Rightarrow> error + u32" where
  "int_div a b =
     (if b = 0 \<or> (a = 2147483648 \<and> b = - 1) then Inl Fault
      else Inr (word_of_int (sint a sdiv sint b)))"

lemma int_rem_eq:
  assumes "int_div x y = Inr q"
  shows "x - q * y = (word_of_int (sint x smod sint y) :: u32)"
proof -
  have q: "q = word_of_int (sint x sdiv sint y)"
    using assms by (simp add: int_div_def split: if_splits)
  have "(word_of_int (sint x - (sint x sdiv sint y) * sint y) :: u32) = x - q * y"
    by (simp add: q)
  then show ?thesis by (simp add: minus_sdiv_mult_eq_smod)
qed

lemma sint_u32_range: "- 2147483648 \<le> sint (x::u32)" "sint (x::u32) < 2147483648"
  using sint_greater_eq[of x] sint_less[of x] by simp_all

lemma int_rem_less:
  assumes "y \<noteq> 0" "int_div x y = Inr q"
  shows "\<bar>sint (x - q * y)\<bar> < \<bar>sint y\<bar>"
proof -
  let ?r = "sint x smod sint y"
  have y0: "sint y \<noteq> 0" using assms by (simp add: signed_eq_0_iff)
  then have r: "\<bar>?r\<bar> < \<bar>sint y\<bar>" using smod_int_range[of "sint y" "sint x"] by auto
  moreover have "\<bar>sint y\<bar> \<le> 2147483648" using sint_u32_range[of y] by linarith
  ultimately have "- 2147483648 \<le> ?r" "?r < 2147483648" by linarith+
  then have "sint (word_of_int ?r :: u32) = ?r"
    by (simp add: sint_sbintrunc' signed_take_bit_int_eq_self)
  then show ?thesis using r by (simp add: int_rem_eq[OF assms(2)])
qed

function check_gcd_loop :: "u32 \<Rightarrow> u32 \<times> u32 \<times> u32 \<Rightarrow> u32 \<times> u32 \<times> u32 \<Rightarrow> error + u32" where
  "check_gcd_loop f (x1, x2, x3) (y1, y2, y3) =
     (if y3 = 0 then Inr 0
      else if y3 = 1 then Inr (if sint y2 < 0 then f + y2 else y2)
      else case int_div x3 y3 of
             Inl err \<Rightarrow> Inl err
           | Inr q \<Rightarrow>
               let t1 = x1 - q * y1;
                   t2 = x2 - q * y2;
                   t3 = x3 - q * y3
               in check_gcd_loop f (y1, y2, y3) (t1, t2, t3))"
  by pat_completeness auto
termination
proof (relation "measure (\<lambda>(f, x, (y1, y2, y3)). nat \<bar>sint y3\<bar>)")
  fix f x1 x2 x3 y1 y2 y3 q t1 t2 t3 :: u32
  assume "y3 \<noteq> 0" and q: "int_div x3 y3 = Inr q" and t3: "t3 = x3 - q * y3"
  then have "\<bar>sint t3\<bar> < \<bar>sint y3\<bar>" by (simp add: int_rem_less)
  then show "((f, (y1, y2, y3), (t1, t2, t3)), (f, (x1, x2, x3), (y1, y2, y3)))
      \<in> measure (\<lambda>(f, x, (y1, y2, y3)). nat \<bar>sint y3\<bar>)"
    by simp
qed simp

declare check_gcd_loop.simps [simp del]

definition check_gcd :: "u32 \<Rightarrow> u32 \<Rightarrow> error + u32" where
  "check_gcd d f = check_gcd_loop f (1, 0, f) (0, 1, d)"

section \<open>generate_keys\<close>

text \<open>
  The loop \<open>for (e = 2; e < f; e++) if ((d = check_gcd(e, f)) != 0) break;\<close> returns the
  final \<open>e\<close> and \<open>d\<close>, or the fault of \<open>check_gcd\<close>. \<open>generate_keys\<close> prints \<open>e\<close>, \<open>n\<close> and
  \<open>d\<close>; the model returns them.
\<close>

function generate_keys_loop :: "u32 \<Rightarrow> u32 \<Rightarrow> u32 \<Rightarrow> error + (u32 \<times> u32)" where
  "generate_keys_loop f e d =
     (if e < f then
        (case check_gcd e f of
           Inl err \<Rightarrow> Inl err
         | Inr d' \<Rightarrow> if d' \<noteq> 0 then Inr (e, d') else generate_keys_loop f (e + 1) d')
      else Inr (e, d))"
  by pat_completeness auto
termination
proof (relation "measure (\<lambda>(f, e, d). unat f - unat e)")
  fix f e d d' :: u32
  assume "e < f"
  then have "unat e < unat f" by (simp add: word_less_nat_alt)
  moreover from this have "unat (e + 1) = Suc (unat e)"
    by (rule unat_u32_Suc)
  ultimately show "((f, e + 1, d'), (f, e, d)) \<in> measure (\<lambda>(f, e, d). unat f - unat e)"
    by simp
qed simp

declare generate_keys_loop.simps [simp del]

definition generate_keys :: "u32 \<Rightarrow> u32 \<Rightarrow> error + (u32 \<times> u32 \<times> u32)" where
  "generate_keys p q =
     (let n = p * q in
      if bitsize p + bitsize q > 32 then Inl OverflowError
      else let f = (p - 1) * (q - 1)
           in case generate_keys_loop f 2 0 of
                Inl err \<Rightarrow> Inl err
              | Inr (e, d) \<Rightarrow> if e = f then Inl NoValidExponentError else Inr (e, n, d))"

section \<open>readbits and writebits\<close>

text \<open>
  A buffer is one allocated block, a list of bytes. The pair of a byte pointer and a bit
  position that the C functions update through their first two arguments is a
  \<open>cursor\<close>: the index of the byte in its block and the bit position. An access outside
  the block and a shift of a 32-bit value by 32 or more are \<open>Fault\<close>. The count \<open>n\<close> of
  the C loops runs down to 0 and \<open>counter\<close> runs up from 0.
\<close>

type_synonym cursor = "nat \<times> nat"

definition advance :: "cursor \<Rightarrow> cursor" where
  "advance cur = (if 8 \<le> snd cur + 1 then (fst cur + 1, 0) else (fst cur, snd cur + 1))"

fun readbits_loop :: "u8 list \<Rightarrow> cursor \<Rightarrow> nat \<Rightarrow> nat \<Rightarrow> u32 \<Rightarrow> error + (u32 \<times> cursor)" where
  "readbits_loop mem cur 0 counter result = Inr (result, cur)"
| "readbits_loop mem cur (Suc n) counter result =
     (if length mem \<le> fst cur \<or> 32 \<le> counter then Inl Fault
      else readbits_loop mem (advance cur) n (counter + 1)
             (result OR push_bit counter (drop_bit (snd cur) (ucast (mem ! fst cur)) AND 1)))"

definition readbits :: "u8 list \<Rightarrow> cursor \<Rightarrow> u32 \<Rightarrow> error + (u32 \<times> cursor)" where
  "readbits mem cur n = readbits_loop mem cur (unat n) 0 0"

fun writebits_loop :: "u8 list \<Rightarrow> cursor \<Rightarrow> nat \<Rightarrow> nat \<Rightarrow> u32 \<Rightarrow> error + (u8 list \<times> cursor)" where
  "writebits_loop mem cur 0 counter v = Inr (mem, cur)"
| "writebits_loop mem cur (Suc n) counter v =
     (if length mem \<le> fst cur \<or> 32 \<le> counter then Inl Fault
      else writebits_loop
             (mem[fst cur := mem ! fst cur OR ucast (push_bit (snd cur) (drop_bit counter v AND 1))])
             (advance cur) n (counter + 1) v)"

definition writebits :: "u8 list \<Rightarrow> cursor \<Rightarrow> u32 \<Rightarrow> u32 \<Rightarrow> error + (u8 list \<times> cursor)" where
  "writebits mem cur n v = writebits_loop mem cur (unat n) 0 v"

text \<open>The cursor only moves forward; this is what makes the loops of the two drivers end.\<close>

definition cursor_measure :: "nat \<Rightarrow> cursor \<Rightarrow> nat" where
  "cursor_measure lim cur = 9 * (lim - fst cur) + (8 - min (snd cur) 8)"

definition cursor_le :: "cursor \<Rightarrow> cursor \<Rightarrow> bool" where
  "cursor_le c c' = (fst c < fst c' \<or> (fst c' = fst c \<and> (snd c' = snd c \<or> (snd c < snd c' \<and> snd c' < 8))))"

definition cursor_less :: "cursor \<Rightarrow> cursor \<Rightarrow> bool" where
  "cursor_less c c' = (fst c < fst c' \<or> (fst c' = fst c \<and> snd c < snd c' \<and> snd c' < 8))"

lemma cursor_less_advance: "cursor_less c (advance c)"
  by (auto simp add: cursor_less_def advance_def)

lemma cursor_less_le_trans: "cursor_less a b \<Longrightarrow> cursor_le b c \<Longrightarrow> cursor_less a c"
  by (auto simp add: cursor_less_def cursor_le_def)

lemma cursor_le_refl: "cursor_le c c"
  by (simp add: cursor_le_def)

lemma cursor_less_imp_le: "cursor_less a b \<Longrightarrow> cursor_le a b"
  by (auto simp add: cursor_less_def cursor_le_def)

lemma cursor_less_measure: "cursor_less c c' \<Longrightarrow> fst c < lim \<Longrightarrow> cursor_measure lim c' < cursor_measure lim c"
  by (auto simp add: cursor_less_def cursor_measure_def)

lemma readbits_loop_cursor:
  "readbits_loop mem cur n counter result = Inr (v, cur') \<Longrightarrow> cursor_le cur cur'"
proof (induction n arbitrary: cur counter result)
  case 0
  then show ?case by (simp add: cursor_le_refl)
next
  case (Suc n)
  from Suc.prems have "readbits_loop mem (advance cur) n (counter + 1)
             (result OR push_bit counter (drop_bit (snd cur) (ucast (mem ! fst cur)) AND 1)) = Inr (v, cur')"
    by (simp split: if_splits)
  then have "cursor_le (advance cur) cur'" by (rule Suc.IH)
  then show ?case using cursor_less_advance[of cur] by (blast intro: cursor_less_le_trans cursor_less_imp_le)
qed

lemma readbits_cursor_less:
  assumes "readbits mem cur n = Inr (v, cur')" "n \<noteq> 0"
  shows "cursor_less cur cur'"
proof -
  obtain k where k: "unat n = Suc k" using assms(2) by (metis not0_implies_Suc unat_eq_0)
  from assms(1) have "readbits_loop mem (advance cur) k 1
             (0 OR push_bit 0 (drop_bit (snd cur) (ucast (mem ! fst cur)) AND 1)) = Inr (v, cur')"
    by (simp add: readbits_def k split: if_splits)
  then have "cursor_le (advance cur) cur'" by (rule readbits_loop_cursor)
  then show ?thesis using cursor_less_advance[of cur] by (blast intro: cursor_less_le_trans)
qed

lemma writebits_loop_cursor:
  "writebits_loop mem cur n counter v = Inr (mem', cur') \<Longrightarrow> cursor_le cur cur'"
proof (induction n arbitrary: mem cur counter)
  case 0
  then show ?case by (simp add: cursor_le_refl)
next
  case (Suc n)
  from Suc.prems have "writebits_loop
             (mem[fst cur := mem ! fst cur OR ucast (push_bit (snd cur) (drop_bit counter v AND 1))])
             (advance cur) n (counter + 1) v = Inr (mem', cur')"
    by (simp split: if_splits)
  then have "cursor_le (advance cur) cur'" by (rule Suc.IH)
  then show ?case using cursor_less_advance[of cur] by (blast intro: cursor_less_le_trans cursor_less_imp_le)
qed

lemma writebits_cursor_less:
  assumes "writebits mem cur n v = Inr (mem', cur')" "n \<noteq> 0"
  shows "cursor_less cur cur'"
proof -
  obtain k where k: "unat n = Suc k" using assms(2) by (metis not0_implies_Suc unat_eq_0)
  from assms(1) have "writebits_loop
             (mem[fst cur := mem ! fst cur OR ucast (push_bit (snd cur) (drop_bit 0 v AND 1))])
             (advance cur) k 1 v = Inr (mem', cur')"
    by (simp add: writebits_def k split: if_splits)
  then have "cursor_le (advance cur) cur'" by (rule writebits_loop_cursor)
  then show ?thesis using cursor_less_advance[of cur] by (blast intro: cursor_less_le_trans)
qed

lemma bitsize_not_1: "bitsize n \<noteq> 1"
  using bitlength_ge[of "unat n"] by (auto simp add: bitsize_eq bitlength.simps split: if_splits)

lemma bitlength_le: "n < 2 ^ k \<Longrightarrow> bitlength n \<le> k"
proof (cases "n = 0")
  case True
  then show ?thesis by (simp add: bitlength.simps)
next
  case False
  assume "n < 2 ^ k"
  moreover have "2 ^ (bitlength n - 1) \<le> n" using False by (intro bitlength_ge) simp
  ultimately have "(2::nat) ^ (bitlength n - 1) < 2 ^ k" by linarith
  then have "bitlength n - 1 < k" by simp
  then show ?thesis by linarith
qed

lemma bitsize_le_32: "bitsize n \<le> 32"
  using bitlength_le[of "unat n" 32] unat_u32_lt[of n] by (simp add: bitsize_eq)

lemma unat_bitsize: "unat (word_of_nat (bitsize n) :: u32) = bitsize n"
  using bitsize_le_32[of n] by (simp add: unat_of_nat)

lemma srcbits_nonzero: "(word_of_nat (bitsize n) :: u32) - 1 \<noteq> 0"
proof
  assume "(word_of_nat (bitsize n) :: u32) - 1 = 0"
  then have "(word_of_nat (bitsize n) :: u32) = 1" by simp
  then have "unat (word_of_nat (bitsize n) :: u32) = 1" by simp
  then show False using bitsize_not_1[of n] by (simp add: unat_bitsize)
qed

section \<open>encrypt_file and decrypt_file\<close>

text \<open>
  \<open>while (text < buf + buflen) writebits(&dest_text, &dest_textbit, destbits,
  ab_mod_n(readbits(&text, &textbit, srcbits), e, n));\<close> with \<open>destbits = bitsize(n)\<close> and
  \<open>srcbits = destbits - 1\<close> (an \<open>unsigned\<close> difference).
\<close>

function encrypt_loop ::
  "u32 \<Rightarrow> u32 \<Rightarrow> u8 list \<Rightarrow> nat \<Rightarrow> cursor \<Rightarrow> u8 list \<Rightarrow> cursor \<Rightarrow> error + (u8 list \<times> cursor)" where
  "encrypt_loop e n buf buflen textp dest dest_textp =
     (if fst textp < buflen then
        (case readbits buf textp (word_of_nat (bitsize n) - 1) of
           Inl err \<Rightarrow> Inl err
         | Inr (v, textp') \<Rightarrow>
            (case ab_mod_n v e n of
               Inl err \<Rightarrow> Inl err
             | Inr c \<Rightarrow>
                (case writebits dest dest_textp (word_of_nat (bitsize n)) c of
                   Inl err \<Rightarrow> Inl err
                 | Inr (dest', dest_textp') \<Rightarrow> encrypt_loop e n buf buflen textp' dest' dest_textp')))
      else Inr (dest, dest_textp))"
  by pat_completeness auto
termination
proof (relation "measure (\<lambda>(e, n, buf, buflen, textp, dest, dest_textp). cursor_measure buflen textp)")
  fix e n :: u32 and buf dest dest' :: "u8 list" and buflen :: nat and textp textp' dest_textp dest_textp' :: cursor
    and x y v c
  assume "fst textp < buflen"
    and "readbits buf textp (word_of_nat (bitsize n) - 1) = Inr x" and "(v, textp') = x"
  then have "cursor_less textp textp'"
    using readbits_cursor_less[OF _ srcbits_nonzero, of buf textp n v textp'] by simp
  with \<open>fst textp < buflen\<close>
  show "((e, n, buf, buflen, textp', dest', dest_textp'), (e, n, buf, buflen, textp, dest, dest_textp))
      \<in> measure (\<lambda>(e, n, buf, buflen, textp, dest, dest_textp). cursor_measure buflen textp)"
    by (simp add: cursor_less_measure)
qed simp


declare encrypt_loop.simps [simp del]

text \<open>
  \<open>while (decrpt_dst <= endmark) writebits(&decrpt_dst, &bitpos_dst, dstbits,
  ab_mod_n(readbits(&decrpt_src, &bitpos_src, srcbits), d, n));\<close> with
  \<open>srcbits = bitsize(n)\<close> and \<open>dstbits = srcbits - 1\<close>; \<open>endmark\<close> is the index
  \<open>origfilelen\<close> in the block of the decrypted data.
\<close>

function decrypt_loop ::
  "u32 \<Rightarrow> u32 \<Rightarrow> u8 list \<Rightarrow> cursor \<Rightarrow> u8 list \<Rightarrow> cursor \<Rightarrow> nat \<Rightarrow> error + (u8 list \<times> cursor)" where
  "decrypt_loop d n buf decrpt_src decrpt decrpt_dst endmark =
     (if fst decrpt_dst \<le> endmark then
        (case readbits buf decrpt_src (word_of_nat (bitsize n)) of
           Inl err \<Rightarrow> Inl err
         | Inr (v, decrpt_src') \<Rightarrow>
            (case ab_mod_n v d n of
               Inl err \<Rightarrow> Inl err
             | Inr c \<Rightarrow>
                (case writebits decrpt decrpt_dst (word_of_nat (bitsize n) - 1) c of
                   Inl err \<Rightarrow> Inl err
                 | Inr (decrpt', decrpt_dst') \<Rightarrow>
                     decrypt_loop d n buf decrpt_src' decrpt' decrpt_dst' endmark)))
      else Inr (decrpt, decrpt_dst))"
  by pat_completeness auto
termination
proof (relation "measure (\<lambda>(d, n, buf, decrpt_src, decrpt, decrpt_dst, endmark).
                    cursor_measure (Suc endmark) decrpt_dst)")
  fix d n :: u32 and buf decrpt decrpt' :: "u8 list" and endmark :: nat
    and decrpt_src decrpt_src' decrpt_dst decrpt_dst' :: cursor and x y z v c
  assume "fst decrpt_dst \<le> endmark"
    and "writebits decrpt decrpt_dst (word_of_nat (bitsize n) - 1) c = Inr z"
    and "(decrpt', decrpt_dst') = z"
  then have "cursor_less decrpt_dst decrpt_dst'"
    using writebits_cursor_less[OF _ srcbits_nonzero, of decrpt decrpt_dst n c decrpt' decrpt_dst'] by simp
  with \<open>fst decrpt_dst \<le> endmark\<close>
  show "((d, n, buf, decrpt_src', decrpt', decrpt_dst', endmark), (d, n, buf, decrpt_src, decrpt, decrpt_dst, endmark))
      \<in> measure (\<lambda>(d, n, buf, decrpt_src, decrpt, decrpt_dst, endmark).
                    cursor_measure (Suc endmark) decrpt_dst)"
    by (simp add: cursor_less_measure)
qed simp

declare decrypt_loop.simps [simp del]

text \<open>
  \<open>malloc\<close> returns a block whose content is not determined: the parameter \<open>junk\<close> gives
  the byte found at each index. \<open>read_file\<close> allocates \<open>2 * sizeof(int) = 8\<close> bytes more
  than the file holds and fills the front with the file. Allocation and file operations
  are taken to succeed.
\<close>

definition malloc :: "(nat \<Rightarrow> u8) \<Rightarrow> nat \<Rightarrow> u8 list" where
  "malloc junk sz = map junk [0..<sz]"

definition read_file :: "(nat \<Rightarrow> u8) \<Rightarrow> u8 list \<Rightarrow> u8 list" where
  "read_file junk file = file @ drop (length file) (malloc junk (length file + 8))"

text \<open>
  The file length is an \<open>off_t\<close>: 64 bits, signed, stored in the file as its 8 bytes in
  memory order, least significant byte first.
\<close>

definition off_t_bytes :: "u64 \<Rightarrow> u8 list" where
  "off_t_bytes w = map (\<lambda>i. ucast (drop_bit (8 * i) w)) [0..<8]"

primrec le_value :: "u8 list \<Rightarrow> u64" where
  "le_value [] = 0"
| "le_value (b # bs) = ucast b OR push_bit 8 (le_value bs)"

definition off_t_value :: "u8 list \<Rightarrow> u64" where
  "off_t_value bs = le_value (take 8 bs)"

text \<open>
  Division of two \<open>long\<close> values, truncating towards zero. Both drivers divide by a bit
  count widened from \<open>unsigned\<close>, which is never negative and, \<open>bitsize\<close> never being 1,
  never 0.
\<close>

definition long_div :: "u64 \<Rightarrow> u64 \<Rightarrow> u64" where
  "long_div a b = word_of_int (sint a sdiv sint b)"

text \<open>
  \<open>encrypt_file\<close> returns the content of the file it writes: the length of the original
  file, then \<open>dest_text - destbuf + 1\<close> bytes of the destination block. \<open>extraspace\<close> is an
  \<open>unsigned\<close>; the quotient \<open>buflen / srcbits\<close> is taken on \<open>long\<close> values.
\<close>

definition encrypt_file :: "(nat \<Rightarrow> u8) \<Rightarrow> (nat \<Rightarrow> u8) \<Rightarrow> u8 list \<Rightarrow> u32 \<Rightarrow> u32 \<Rightarrow> error + u8 list" where
  "encrypt_file junk junk' file e n =
     (let buflen = length file;
          buf = read_file junk file;
          destbits = word_of_nat (bitsize n) :: u32;
          srcbits = destbits - 1;
          extraspace = ucast (8 + long_div (word_of_nat buflen) (ucast srcbits)) :: u32;
          destbuf = malloc junk' (buflen + unat extraspace)
      in case encrypt_loop e n buf buflen (0, 0) destbuf (0, 0) of
           Inl err \<Rightarrow> Inl err
         | Inr (dest, dest_textp) \<Rightarrow>
             if length dest < fst dest_textp + 1 then Inl Fault
             else Inr (off_t_bytes (word_of_nat buflen) @ take (fst dest_textp + 1) dest))"

text \<open>
  The check of \<open>decrypt_file\<close>: \<open>lendiff\<close> and \<open>maxdiff\<close> are \<open>int\<close>, computed on 64-bit
  values and cut to 32 bits by the assignment; the file is refused when
  \<open>origfilelen < 0 || lendiff < -maxdiff || lendiff > maxdiff\<close>.
\<close>

definition lendiff :: "u64 \<Rightarrow> nat \<Rightarrow> u32" where
  "lendiff origfilelen buflen = ucast (origfilelen - (word_of_nat buflen - 8))"

definition maxdiff :: "u64 \<Rightarrow> u32 \<Rightarrow> u32" where
  "maxdiff origfilelen dstbits = ucast (long_div origfilelen (ucast dstbits) + 1 + 8)"

definition corrupted :: "u64 \<Rightarrow> nat \<Rightarrow> u32 \<Rightarrow> bool" where
  "corrupted origfilelen buflen dstbits =
     (sint origfilelen < 0
      \<or> sint (lendiff origfilelen buflen) < sint (- maxdiff origfilelen dstbits)
      \<or> sint (lendiff origfilelen buflen) > sint (maxdiff origfilelen dstbits))"

text \<open>
  \<open>decrypt_file\<close> returns the content of the file it writes, the first \<open>origfilelen\<close> bytes
  of the block of decrypted data. With an empty file \<open>read_file\<close> allocates nothing and
  the length is read through a pointer that was never set.
\<close>

definition decrypt_file :: "(nat \<Rightarrow> u8) \<Rightarrow> (nat \<Rightarrow> u8) \<Rightarrow> u8 list \<Rightarrow> u32 \<Rightarrow> u32 \<Rightarrow> error + u8 list" where
  "decrypt_file junk junk' file d n =
     (let buflen = length file in
      if buflen = 0 then Inl Fault
      else
        let block = read_file junk file;
            srcbits = word_of_nat (bitsize n) :: u32;
            dstbits = srcbits - 1;
            origfilelen = off_t_value block;
            buf = drop 8 block
        in if corrupted origfilelen buflen dstbits then Inl CorruptFileError
           else
             let decrpt_buf = malloc junk' (unat (origfilelen + 8)) in
             case decrypt_loop d n buf (0, 0) decrpt_buf (0, 0) (unat origfilelen) of
               Inl err \<Rightarrow> Inl err
             | Inr (decrpt, decrpt_dst) \<Rightarrow> Inr (take (unat origfilelen) decrpt))"

section \<open>The bits of a buffer\<close>

text \<open>
  Bit \<open>k\<close> of a buffer is bit \<open>k mod 8\<close> of byte \<open>k div 8\<close>; the cursor at bit \<open>k\<close> points
  there. \<open>field mem k n\<close> is the number whose bit \<open>j\<close>, for \<open>j < n\<close>, is bit \<open>k + j\<close> of the
  buffer. \<open>write_fields\<close> and \<open>read_fields\<close> call \<open>writebits\<close> and \<open>readbits\<close> for a list of
  fields, one after the other, and stop at the first fault.
\<close>

definition getbit :: "u8 list \<Rightarrow> nat \<Rightarrow> bool" where
  "getbit mem k = bit (mem ! (k div 8)) (k mod 8)"

definition cursor_at :: "nat \<Rightarrow> cursor" where
  "cursor_at k = (k div 8, k mod 8)"

definition field :: "u8 list \<Rightarrow> nat \<Rightarrow> nat \<Rightarrow> u32" where
  "field mem k n = horner_sum of_bool 2 (map (\<lambda>j. getbit mem (k + j)) [0..<n])"

fun write_fields :: "u8 list \<Rightarrow> cursor \<Rightarrow> (u32 \<times> u32) list \<Rightarrow> error + (u8 list \<times> cursor)" where
  "write_fields mem cur [] = Inr (mem, cur)"
| "write_fields mem cur ((n, v) # fs) =
     (case writebits mem cur n v of
        Inl err \<Rightarrow> Inl err
      | Inr (mem', cur') \<Rightarrow> write_fields mem' cur' fs)"

fun read_fields :: "u8 list \<Rightarrow> cursor \<Rightarrow> u32 list \<Rightarrow> error + (u32 list \<times> cursor)" where
  "read_fields mem cur [] = Inr ([], cur)"
| "read_fields mem cur (n # ns) =
     (case readbits mem cur n of
        Inl err \<Rightarrow> Inl err
      | Inr (v, cur') \<Rightarrow>
         (case read_fields mem cur' ns of
            Inl err \<Rightarrow> Inl err
          | Inr (vs, cur'') \<Rightarrow> Inr (v # vs, cur'')))"

definition total_bits :: "(u32 \<times> u32) list \<Rightarrow> nat" where
  "total_bits fs = sum_list (map (\<lambda>(n, v). unat n) fs)"

text \<open>
  The \<open>j\<close>-th block of ciphertext: the \<open>j\<close>-th group of \<open>bitsize n - 1\<close> bits of the buffer,
  raised to the power \<open>e\<close> modulo \<open>n\<close>.
\<close>

definition cblock :: "u32 \<Rightarrow> u32 \<Rightarrow> u8 list \<Rightarrow> nat \<Rightarrow> u32" where
  "cblock e n buf j =
     word_of_nat (unat (field buf (j * (bitsize n - 1)) (bitsize n - 1)) ^ unat e mod unat n)"

section \<open>The value of bitsize at 1\<close>

text \<open>
  C6. \<open>bitsize\<close> is meant to return the number of bits needed to write its argument:
  0 for 0 and the index of the highest set bit plus one otherwise. The loop stops before
  it looks at bit 0, so for the argument 1 it returns 0, not 1.
\<close>

theorem bitsize_one: "bitsize 1 = 0 \<and> bitlength (unat (1::u32)) = 1"
  by (simp add: bitsize_eq bitlength.simps)

section \<open>Properties of ab_mod_n\<close>

lemma taken_iff:
  assumes "i < 32"
  shows "((ucast (b::u32) :: u64) AND scast (push_bit i (1 :: u32)) \<noteq> 0) = bit b i"
proof
  assume "(ucast b :: u64) AND scast (push_bit i (1 :: u32)) \<noteq> 0"
  then obtain k where k: "bit ((ucast b :: u64) AND scast (push_bit i (1 :: u32))) k"
    by (auto simp add: bit_eq_iff)
  then have bk: "bit b k" and k32: "k < 32" and m: "bit (scast (push_bit i (1 :: u32)) :: u64) k"
    by (auto simp add: bit_and_iff bit_ucast_iff dest: bit_imp_le_length)
  from m k32 have "bit (push_bit i (1 :: u32)) k"
    by (auto simp add: bit_word_scast_iff)
  then have "k = i" by (auto simp add: bit_push_bit_iff bit_1_iff bit_exp_iff)
  with bk show "bit b i" by simp
next
  assume bi: "bit b i"
  have h: "bit ((ucast b :: u64) AND scast (push_bit i (1 :: u32))) i"
    using bi assms by (auto simp add: bit_and_iff bit_ucast_iff bit_word_scast_iff bit_push_bit_iff bit_1_iff bit_exp_iff)
  show "(ucast b :: u64) AND scast (push_bit i (1 :: u32)) \<noteq> 0"
  proof
    assume "(ucast b :: u64) AND scast (push_bit i (1 :: u32)) = 0"
    with h show False by simp
  qed
qed


lemma unat_ucast_u32_u64: "unat (ucast (a::u32) :: u64) = unat a" 
proof -
  have "unat a < 2 ^ 64" using unat_u32_lt[of a] by simp
  then show ?thesis by (simp add: unsigned_ucast_eq take_bit_nat_eq_self)
qed

lemma umul64: "unat (x::u64) < 2 ^ 32 \<Longrightarrow> unat (y::u64) < 2 ^ 32 \<Longrightarrow> unat (x * y) = unat x * unat y"
proof -
  assume a: "unat x < 2 ^ 32" "unat y < 2 ^ 32"
  then have "unat x * unat y < 2 ^ 32 * 2 ^ 32" by (intro mult_strict_mono) simp_all
  then have "unat x * unat y < 2 ^ LENGTH(64)" by simp
  then show ?thesis by (simp only: unat_mult_lem)
qed

lemma bit_split_mod: "(b::nat) mod 2 ^ Suc i = (if bit b i then 2 ^ i else 0) + b mod 2 ^ i"
proof -
  have "b mod 2 ^ Suc i = b mod (2 ^ i * 2)" by (simp add: mult.commute)
  also have "\<dots> = 2 ^ i * (b div 2 ^ i mod 2) + b mod 2 ^ i" by (rule mod_mult2_eq)
  also have "b div 2 ^ i mod 2 = (if bit b i then 1 else 0)"
    by (auto simp add: bit_iff_odd odd_iff_mod_2_eq_one)
  finally show ?thesis by simp
qed


lemma square_multiply_step:
  fixes d a b n i :: nat
  defines "\<beta> \<equiv> (if bit b (Suc i) then 1 else 0 :: nat)"
  shows "(((d * d * a ^ \<beta>) mod n) ^ (2 ^ Suc i) * a ^ (b mod 2 ^ Suc i)) mod n
       = (d ^ (2 ^ Suc (Suc i)) * a ^ (b mod 2 ^ Suc (Suc i))) mod n"
proof -
  have split: "b mod 2 ^ Suc (Suc i) = \<beta> * 2 ^ Suc i + b mod 2 ^ Suc i"
    unfolding \<beta>_def by (subst bit_split_mod) simp
  have "(((d * d * a ^ \<beta>) mod n) ^ (2 ^ Suc i) * a ^ (b mod 2 ^ Suc i)) mod n
      = ((d * d * a ^ \<beta>) ^ (2 ^ Suc i) * a ^ (b mod 2 ^ Suc i)) mod n"
    by (metis mod_mult_left_eq power_mod)
  also have "(d * d * a ^ \<beta>) ^ (2 ^ Suc i) = d ^ (2 ^ Suc (Suc i)) * a ^ (\<beta> * 2 ^ Suc i)"
  proof -
    have "(d * d * a ^ \<beta>) ^ (2 ^ Suc i) = (d * d) ^ (2 ^ Suc i) * (a ^ \<beta>) ^ (2 ^ Suc i)"
      by (rule power_mult_distrib)
    also have "(d * d) ^ (2 ^ Suc i) = d ^ (2 * 2 ^ Suc i)"
      by (simp only: power_mult power2_eq_square)
    also have "(a ^ \<beta>) ^ (2 ^ Suc i) = a ^ (\<beta> * 2 ^ Suc i)"
      by (simp only: power_mult)
    finally show ?thesis by (simp only: power_Suc)
  qed
  also have "d ^ (2 ^ Suc (Suc i)) * a ^ (\<beta> * 2 ^ Suc i) * a ^ (b mod 2 ^ Suc i)
      = d ^ (2 ^ Suc (Suc i)) * a ^ (b mod 2 ^ Suc (Suc i))"
    by (simp only: split power_add mult.assoc)
  finally show ?thesis .
qed

lemma ab_mod_n_body:
  fixes a b :: u32 and N D :: u64
  assumes "i < 32" "0 < unat N" "unat N < 2 ^ 32" "unat D < 2 ^ 32"
  defines "D1 \<equiv> (D * D) mod N"
  defines "D2 \<equiv> (if ucast b AND scast (push_bit i (1 :: u32)) \<noteq> (0::u64) then (D1 * ucast a) mod N else D1)"
  shows "unat D2 = (unat D * unat D * unat a ^ (if bit (unat b) i then 1 else 0)) mod unat N"
    and "unat D2 < 2 ^ 32"
proof -
  have d1: "unat D1 = (unat D * unat D) mod unat N"
    unfolding D1_def using assms(4) by (simp add: unat_mod umul64)
  have d1_lt: "unat D1 < 2 ^ 32" using assms(2,3) unfolding d1
    by (meson less_trans mod_less_divisor)
  have a_eq: "unat (ucast a :: u64) = unat a" by (rule unat_ucast_u32_u64)
  have a_lt: "unat (ucast a :: u64) < 2 ^ 32" using unat_u32_lt[of a] by (simp add: a_eq)
  have tk: "(ucast b AND scast (push_bit i (1 :: u32)) \<noteq> (0::u64)) = bit (unat b) i"
    using taken_iff[OF assms(1), of b] by (simp add: bit_unsigned_iff)
  show "unat D2 = (unat D * unat D * unat a ^ (if bit (unat b) i then 1 else 0)) mod unat N"
  proof (cases "bit (unat b) i")
    case True
    then have "D2 = (D1 * ucast a) mod N" unfolding D2_def using tk by simp
    then have "unat D2 = (unat D1 * unat a) mod unat N"
      using d1_lt a_lt by (simp add: unat_mod umul64 a_eq)
    then show ?thesis using True by (simp add: d1 mod_mult_left_eq)
  next
    case False
    then have "D2 = D1" unfolding D2_def using tk by simp
    then show ?thesis using False by (simp add: d1)
  qed
  then show "unat D2 < 2 ^ 32" using assms(2,3)
    by (metis less_trans mod_less_divisor)
qed

lemma ab_mod_n_loop_correct:
  fixes a b :: u32
  assumes "i < 32" "0 < unat N" "unat N < 2 ^ 32" "unat D < 2 ^ 32"
  shows "unat (ab_mod_n_loop (ucast a) (ucast b) N i C D)
         = (unat D ^ (2 ^ Suc i) * unat a ^ (unat b mod 2 ^ Suc i)) mod unat N"
  using assms
proof (induction i arbitrary: C D)
  case 0
  have "(unat b mod 2) = (if bit (unat b) 0 then 1 else 0)"
    by (simp add: bit_0 odd_iff_mod_2_eq_one)
  then show ?case
    using ab_mod_n_body(1)[OF "0.prems", of b a]
    by (subst ab_mod_n_loop.simps) (simp add: Let_def power2_eq_square)
next
  case (Suc i)
  let ?D1 = "(D * D) mod N"
  let ?D2 = "(if ucast b AND scast (push_bit (Suc i) (1 :: u32)) \<noteq> (0::u64) then (?D1 * ucast a) mod N else ?D1)"
  let ?C2 = "(if ucast b AND scast (push_bit (Suc i) (1 :: u32)) \<noteq> (0::u64) then C * 2 + 1 else C * 2)"
  have unf: "ab_mod_n_loop (ucast a) (ucast b) N (Suc i) C D = ab_mod_n_loop (ucast a) (ucast b) N i ?C2 ?D2"
    by (subst ab_mod_n_loop.simps) (simp add: Let_def)
  have d2: "unat ?D2 = (unat D * unat D * unat a ^ (if bit (unat b) (Suc i) then 1 else 0)) mod unat N"
    and lt: "unat ?D2 < 2 ^ 32"
    using ab_mod_n_body[OF Suc.prems, of b a] by simp_all
  have "i < 32" using Suc.prems(1) by simp
  from Suc.IH[OF this Suc.prems(2,3) lt]
  have "unat (ab_mod_n_loop (ucast a) (ucast b) N i ?C2 ?D2)
      = (unat ?D2 ^ 2 ^ Suc i * unat a ^ (unat b mod 2 ^ Suc i)) mod unat N" .
  also have "\<dots> = (unat D ^ (2 ^ Suc (Suc i)) * unat a ^ (unat b mod 2 ^ Suc (Suc i))) mod unat N"
    unfolding d2 by (rule square_multiply_step)
  finally show ?case unfolding unf .
qed

lemma ab_mod_n_loop_result:
  fixes a b n :: u32
  assumes "n \<noteq> 0"
  shows "unat (ab_mod_n_loop (ucast a) (ucast b) (ucast n) archbits 0 1) = unat a ^ unat b mod unat n"
proof -
  have n: "0 < unat (ucast n :: u64)" "unat (ucast n :: u64) < 2 ^ 32" "unat (ucast n :: u64) = unat n"
    using assms unat_u32_lt[of n] by (simp_all add: unat_ucast_u32_u64 unat_gt_0)
  have "unat (ab_mod_n_loop (ucast a) (ucast b) (ucast n) 31 0 1)
      = (unat (1::u64) ^ (2 ^ Suc 31) * unat a ^ (unat b mod 2 ^ Suc 31)) mod unat (ucast n :: u64)"
    by (rule ab_mod_n_loop_correct) (use n in simp_all)
  also have "unat b mod 2 ^ Suc 31 = unat b" using unat_u32_lt[of b] by simp
  finally show ?thesis by (simp add: n(3) archbits_def)
qed

lemma ab_mod_n_value:
  assumes "n \<noteq> 0"
  shows "ab_mod_n a b n = Inr (word_of_nat (unat a ^ unat b mod unat n))"
proof -
  have r: "unat (ab_mod_n_loop (ucast a) (ucast b) (ucast n) 31 0 1) = unat a ^ unat b mod unat n"
    using ab_mod_n_loop_result[OF assms, of a b] by (simp add: archbits_def)
  have "(ucast (ab_mod_n_loop (ucast a) (ucast b) (ucast n) 31 0 1) :: u32)
      = word_of_nat (unat (ab_mod_n_loop (ucast a) (ucast b) (ucast n) 31 0 1))"
    by simp
  then show ?thesis using assms by (simp add: ab_mod_n_def archbits_def r)
qed


text \<open>
  C2. For all 32-bit \<open>a\<close>, \<open>b\<close> and every modulus \<open>n > 0\<close>, \<open>ab_mod_n a b n\<close> returns
  \<open>a ^ b mod n\<close> computed on the natural numbers. The result is below \<open>n\<close>, and the 64-bit
  accumulator holds the same number as the 32-bit value returned: the narrowing loses
  nothing.
\<close>

theorem ab_mod_n_correct:
  assumes "n \<noteq> 0"
  shows "\<exists>r. ab_mod_n a b n = Inr r \<and> unat r = unat a ^ unat b mod unat n \<and> unat r < unat n
           \<and> unat (ab_mod_n_loop (ucast a) (ucast b) (ucast n) archbits 0 1) = unat r"
proof -
  let ?D = "ab_mod_n_loop (ucast a) (ucast b) (ucast n) archbits 0 1"
  have n: "0 < unat n" using assms by (simp add: unat_gt_0)
  have lt: "unat a ^ unat b mod unat n < unat n" using n by simp
  then have small: "unat a ^ unat b mod unat n < 2 ^ LENGTH(32)"
    using unat_u32_lt[of n] by simp
  have r: "unat (word_of_nat (unat a ^ unat b mod unat n) :: u32) = unat a ^ unat b mod unat n"
    using small by (simp add: unat_of_nat)
  have D: "unat ?D = unat a ^ unat b mod unat n"
    using ab_mod_n_loop_result[OF assms, of a b] .
  show ?thesis
    using ab_mod_n_value[OF assms, of a b] r lt D by simp
qed

theorem ab_mod_n_correct_witness:
  "(1000::u32) \<noteq> 0 \<and> (\<exists>r. ab_mod_n 2 10 1000 = Inr r \<and> unat r = 24 \<and> unat r < 1000)"
  using ab_mod_n_correct[of 1000 2 10] by auto


section \<open>The overflow check of generate_keys\<close>

lemma bitsize_le_bitlength: "bitsize x \<le> bitlength (unat x)"
  by (simp add: bitsize_eq)

lemma check_gcd_loop_error: "check_gcd_loop f x y = Inl err \<Longrightarrow> err = Fault"
proof (induction f x y rule: check_gcd_loop.induct)
  case (1 f x1 x2 x3 y1 y2 y3)
  show ?case
  proof (cases "int_div x3 y3")
    case (Inl a)
    then have "a = Fault" by (simp add: int_div_def split: if_splits)
    with Inl "1.prems" show ?thesis
      by (simp add: check_gcd_loop.simps[of f x1 x2 x3 y1 y2 y3] split: if_splits)
  next
    case (Inr q)
    with "1.prems" "1.IH"[OF _ _ Inr refl refl refl] show ?thesis
      by (simp add: check_gcd_loop.simps[of f x1 x2 x3 y1 y2 y3] Let_def split: if_splits)
  qed
qed

lemma generate_keys_loop_error: "generate_keys_loop f e d = Inl err \<Longrightarrow> err = Fault"
proof (induction f e d rule: generate_keys_loop.induct)
  case (1 f e d)
  show ?case
  proof (cases "check_gcd e f")
    case (Inl a)
    then have "a = Fault" unfolding check_gcd_def by (rule check_gcd_loop_error)
    with Inl "1.prems" show ?thesis
      by (simp add: generate_keys_loop.simps[of f e d] split: if_splits)
  next
    case (Inr d')
    with "1.prems" "1.IH"[OF _ Inr] show ?thesis
      by (simp add: generate_keys_loop.simps[of f e d] split: if_splits)
  qed
qed

lemma generate_keys_overflow_iff:
  assumes "p \<noteq> 1" "q \<noteq> 1"
  shows "(generate_keys p q = Inl OverflowError) = (32 < bitlength (unat p) + bitlength (unat q))"
proof -
  have b: "bitsize x = bitlength (unat x)" if "x \<noteq> 1" for x :: u32
  proof (cases "2 \<le> unat x")
    case True
    then show ?thesis by (simp add: bitsize_eq)
  next
    case False
    then have "unat x = 0 \<or> unat x = 1" by linarith
    moreover have "unat x \<noteq> 1"
    proof
      assume "unat x = 1"
      then have "word_of_nat (unat x) = (word_of_nat 1 :: u32)" by simp
      with that show False by simp
    qed
    ultimately have "unat x = 0" by simp
    then show ?thesis by (simp add: bitsize_eq bitlength.simps)
  qed
  show ?thesis
    by (auto simp add: generate_keys_def Let_def b[OF assms(1)] b[OF assms(2)]
        split: prod.splits sum.splits dest: generate_keys_loop_error)
qed

text \<open>
  C5. \<open>generate_keys p q\<close> is meant to fail with the overflow error exactly when the bit
  lengths of \<open>p\<close> and \<open>q\<close> add up to more than 32. It tests \<open>bitsize p + bitsize q > 32\<close>,
  and \<open>bitsize 1 = 0\<close>: for \<open>p = 1\<close> and \<open>q = 2^31\<close> the bit lengths add up to 33, yet no
  overflow error is raised and a key is printed.
\<close>

theorem generate_keys_one_no_overflow:
  "generate_keys 1 2147483648 = Inr (2, 2147483648, 0)
   \<and> bitlength (unat (1::u32)) + bitlength (unat (2147483648::u32)) = 33"
proof -
  have "bitlength 2147483648 = Suc 31" by (rule bitlength_bounds) simp_all
  moreover have "generate_keys 1 2147483648 = Inr (2, 2147483648, 0)"
    by (simp add: generate_keys_def bitsize_eq bitlength.simps generate_keys_loop.simps)
  ultimately show ?thesis by (simp add: bitlength.simps)
qed

section \<open>The prime search\<close>

text \<open>
  C9. Whenever \<open>find_next_prime\<close> ends with success, the number it reports is meant to be
  a prime. \<open>is_prime 1\<close> answers 1 (no divisor is tried), so started at 0 or at 1 the
  search reports 1, which is not a prime.
\<close>

theorem find_next_prime_reports_one:
  "find_next_prime 0 = Inr 1 \<and> find_next_prime 1 = Inr 1 \<and> \<not> prime_nat (unat (1::u32))"
  by (simp add: find_next_prime_def find_next_prime_loop.simps is_prime_def sqrt_floor.simps
      sqrt_step_def is_prime_loop.simps prime_nat_def)

section \<open>The two inverse functions at work\<close>

text \<open>
  C10. \<open>check_gcd\<close> and \<open>find_inverse\<close> are meant to return the same value, the inverse of
  \<open>d\<close> modulo \<open>f\<close>, for \<open>d\<close> and \<open>f\<close> in the positive \<open>int\<close> range. \<open>find_inverse\<close> forms
  \<open>i * d\<close> in 32 bits: for \<open>d = 2147483644\<close> and \<open>f = 5\<close> the product \<open>3 * d\<close> wraps around and
  \<open>find_inverse\<close> returns 3, which is not an inverse (\<open>3 * d mod 5 = 2\<close>), while
  \<open>check_gcd\<close> returns the inverse 4.
\<close>

theorem find_inverse_differs:
  "find_inverse 2147483644 5 = 3 \<and> check_gcd 2147483644 5 = Inr 4
   \<and> (3 * 2147483644) mod 5 = (2::nat) \<and> (4 * 2147483644) mod 5 = (1::nat)"
  by (simp add: find_inverse_def find_inverse_loop.simps check_gcd_def check_gcd_loop.simps
      int_div_def)

text \<open>
  C3. \<open>check_gcd d f\<close> is meant to return the inverse of \<open>d\<close> modulo \<open>f\<close> when the two are
  coprime and 0 when they are not, for all 32-bit \<open>d\<close> and \<open>f\<close>. It stores \<open>f\<close> in an \<open>int\<close>:
  \<open>f = 4292739360\<close> becomes \<open>-2227936\<close>. For \<open>d = 9\<close>, which shares the factor 9 with
  \<open>f\<close>, it returns 495097 and not 0; for \<open>d = 11\<close>, which is coprime to \<open>f\<close>, it returns
  607619, which is not the inverse.
\<close>

theorem check_gcd_large_modulus:
  "check_gcd 9 4292739360 = Inr 495097 \<and> gcd (9::nat) 4292739360 = 9
   \<and> check_gcd 11 4292739360 = Inr 607619 \<and> gcd (11::nat) 4292739360 = 1
   \<and> (607619 * 11) mod 4292739360 = (6683809::nat)"
  by (simp add: check_gcd_def check_gcd_loop.simps int_div_def gcd_non_0_nat)

text \<open>
  C4. For primes \<open>p\<close>, \<open>q\<close> that pass the overflow check, \<open>generate_keys\<close> is meant to print
  the least \<open>e \<ge> 2\<close> that has an inverse modulo \<open>f = (p - 1) * (q - 1)\<close> and that inverse
  as \<open>d\<close>. For the primes 65519 and 65521 (16 bits each) \<open>f = 4292739360\<close> does not fit
  an \<open>int\<close>, and the key printed is \<open>e = 9\<close>, \<open>d = 495097\<close>: 9 divides \<open>f\<close> and has no
  inverse, and \<open>e * d mod f\<close> is 4455873.
\<close>

theorem generate_keys_large_primes:
  "generate_keys 65519 65521 = Inr (9, 4292870399, 495097)
   \<and> (65519 - 1) * (65521 - 1) = (4292739360::nat) \<and> gcd (9::nat) 4292739360 = 9
   \<and> (9 * 495097) mod 4292739360 = (4455873::nat)"
  by (simp add: generate_keys_def bitsize_eq bitlength.simps generate_keys_loop.simps
      check_gcd_def check_gcd_loop.simps int_div_def gcd_non_0_nat)

section \<open>Bit packing\<close>

lemma bit_field: "bit (field mem k n) j = (j < n \<and> j < 32 \<and> getbit mem (k + j))"
  by (auto simp add: field_def bit_horner_sum_bit_word_iff)

lemma advance_cursor_at: "advance (cursor_at k) = cursor_at (Suc k)"
  by (auto simp add: advance_def cursor_at_def mod_Suc div_Suc)

lemma read_bit_step:
  fixes result :: u32 and byte :: u8
  assumes "counter < 32"
  shows "bit (result OR push_bit counter (drop_bit b (ucast byte) AND 1)) j
       = (bit result j \<or> (j = counter \<and> bit byte b))"
  using assms by (auto simp add: bit_simps dest: bit_imp_le_length)

lemma readbits_loop_spec:
  assumes "k + n \<le> 8 * length mem" "counter + n \<le> 32"
  shows "\<exists>r. readbits_loop mem (cursor_at k) n counter result = Inr (r, cursor_at (k + n))
           \<and> (\<forall>j. bit r j = (bit result j \<or> (counter \<le> j \<and> j < counter + n \<and> getbit mem (k + (j - counter)))))"
  using assms
proof (induction n arbitrary: k counter result)
  case 0
  then show ?case by auto
next
  case (Suc n)
  define res where "res = result OR push_bit counter (drop_bit (k mod 8) (ucast (mem ! (k div 8))) AND 1)"
  have inb: "k div 8 < length mem" "counter < 32" using Suc.prems by simp_all
  have res: "bit res j = (bit result j \<or> (j = counter \<and> getbit mem k))" for j
    unfolding res_def getbit_def using inb(2) by (rule read_bit_step)
  have unf: "readbits_loop mem (cursor_at k) (Suc n) counter result
      = readbits_loop mem (cursor_at (Suc k)) n (Suc counter) res"
    using inb by (simp add: advance_cursor_at) (simp add: cursor_at_def res_def)
  from Suc.IH[of "Suc k" "Suc counter" res] Suc.prems
  obtain r where r: "readbits_loop mem (cursor_at (Suc k)) n (Suc counter) res = Inr (r, cursor_at (Suc k + n))"
    and bits: "\<And>j. bit r j = (bit res j \<or> (Suc counter \<le> j \<and> j < Suc counter + n \<and> getbit mem (Suc k + (j - Suc counter))))"
    by auto
  have "bit r j = (bit result j \<or> (counter \<le> j \<and> j < counter + Suc n \<and> getbit mem (k + (j - counter))))" for j
  proof (cases "j = counter")
    case True
    then show ?thesis by (simp add: bits res)
  next
    case False
    then have "Suc k + (j - Suc counter) = k + (j - counter)" if "Suc counter \<le> j" using that by simp
    then show ?thesis using False by (auto simp add: bits res)
  qed
  then show ?case using r unf by simp
qed

lemma readbits_spec:
  assumes "k + unat n \<le> 8 * length mem" "unat n \<le> 32"
  shows "readbits mem (cursor_at k) n = Inr (field mem k (unat n), cursor_at (k + unat n))"
proof -
  from readbits_loop_spec[of k "unat n" mem 0 0] assms
  obtain r where r: "readbits_loop mem (cursor_at k) (unat n) 0 0 = Inr (r, cursor_at (k + unat n))"
    and bits: "\<And>j. bit r j = (j < unat n \<and> getbit mem (k + j))"
    by auto
  have "r = field mem k (unat n)"
  proof (rule bit_eqI)
    fix j
    show "bit r j = bit (field mem k (unat n)) j" using assms(2)
      by (auto simp add: bits bit_field)
  qed
  with r show ?thesis by (simp add: readbits_def)
qed


lemma write_bit_step:
  fixes v :: u32 and byte :: u8
  assumes "counter < 32" "b < 8"
  shows "bit (byte OR ucast (push_bit b (drop_bit counter v AND 1))) m
       = (bit byte m \<or> (m = b \<and> bit v counter))"
  using assms by (auto simp add: bit_simps dest: bit_imp_le_length)

lemma getbit_update:
  assumes "k div 8 < length mem" "counter < 32"
  shows "getbit (mem[k div 8 := mem ! (k div 8) OR ucast (push_bit (k mod 8) (drop_bit counter (v::u32) AND 1))]) i
       = (getbit mem i \<or> (i = k \<and> bit v counter))"
proof (cases "i div 8 = k div 8")
  case True
  have eq: "(i = k) = (i mod 8 = k mod 8)" using True by (metis div_mult_mod_eq)
  have lt: "k mod 8 < 8" by simp
  have "getbit (mem[k div 8 := mem ! (k div 8) OR ucast (push_bit (k mod 8) (drop_bit counter v AND 1))]) i
      = bit (mem ! (k div 8) OR ucast (push_bit (k mod 8) (drop_bit counter v AND 1))) (i mod 8)"
    unfolding getbit_def True by (simp only: nth_list_update_eq[OF assms(1)])
  also have "\<dots> = (bit (mem ! (k div 8)) (i mod 8) \<or> (i mod 8 = k mod 8 \<and> bit v counter))"
    by (rule write_bit_step[OF assms(2) lt])
  finally show ?thesis by (simp add: getbit_def True eq)
next
  case False
  then have "i \<noteq> k" by auto
  then show ?thesis unfolding getbit_def using False by simp
qed

lemma writebits_loop_spec:
  assumes "k + n \<le> 8 * length mem" "counter + n \<le> 32"
  shows "\<exists>mem'. writebits_loop mem (cursor_at k) n counter v = Inr (mem', cursor_at (k + n))
           \<and> length mem' = length mem
           \<and> (\<forall>i. getbit mem' i = (getbit mem i \<or> (k \<le> i \<and> i < k + n \<and> bit v (counter + (i - k)))))"
  using assms
proof (induction n arbitrary: k counter mem)
  case 0
  then show ?case by auto
next
  case (Suc n)
  define mem1 where "mem1 = mem[k div 8 := mem ! (k div 8) OR ucast (push_bit (k mod 8) (drop_bit counter v AND 1))]"
  have inb: "k div 8 < length mem" "counter < 32" using Suc.prems by simp_all
  have m1: "getbit mem1 i = (getbit mem i \<or> (i = k \<and> bit v counter))" for i
    unfolding mem1_def using inb by (rule getbit_update)
  have len1: "length mem1 = length mem" by (simp add: mem1_def)
  have unf: "writebits_loop mem (cursor_at k) (Suc n) counter v
      = writebits_loop mem1 (cursor_at (Suc k)) n (Suc counter) v"
    using inb by (simp add: advance_cursor_at) (simp add: cursor_at_def mem1_def)
  from Suc.IH[of "Suc k" mem1 "Suc counter"] Suc.prems len1
  obtain mem' where r: "writebits_loop mem1 (cursor_at (Suc k)) n (Suc counter) v = Inr (mem', cursor_at (Suc k + n))"
    and len: "length mem' = length mem1"
    and bits: "\<And>i. getbit mem' i = (getbit mem1 i \<or> (Suc k \<le> i \<and> i < Suc k + n \<and> bit v (Suc counter + (i - Suc k))))"
    by auto
  have "getbit mem' i = (getbit mem i \<or> (k \<le> i \<and> i < k + Suc n \<and> bit v (counter + (i - k))))" for i
  proof (cases "i = k")
    case True
    then show ?thesis by (simp add: bits m1)
  next
    case False
    then have "Suc counter + (i - Suc k) = counter + (i - k)" if "Suc k \<le> i" using that by simp
    then show ?thesis using False by (auto simp add: bits m1)
  qed
  then show ?case using r unf len len1 by simp
qed

lemma writebits_spec:
  assumes "k + unat n \<le> 8 * length mem" "unat n \<le> 32"
  shows "\<exists>mem'. writebits mem (cursor_at k) n v = Inr (mem', cursor_at (k + unat n))
           \<and> length mem' = length mem
           \<and> (\<forall>i. getbit mem' i = (getbit mem i \<or> (k \<le> i \<and> i < k + unat n \<and> bit v (i - k))))"
  using writebits_loop_spec[of k "unat n" mem 0 v] assms by (simp add: writebits_def)


lemma fields_roundtrip:
  assumes "list_all (\<lambda>(n, v). unat n \<le> 32) fs"
    and "k + total_bits fs \<le> 8 * length mem"
    and "\<And>i. k \<le> i \<Longrightarrow> i < 8 * length mem \<Longrightarrow> \<not> getbit mem i"
  shows "\<exists>mem'. write_fields mem (cursor_at k) fs = Inr (mem', cursor_at (k + total_bits fs))
           \<and> length mem' = length mem
           \<and> (\<forall>i<k. getbit mem' i = getbit mem i)
           \<and> read_fields mem' (cursor_at k) (map fst fs)
               = Inr (map (\<lambda>(n, v). take_bit (unat n) v) fs, cursor_at (k + total_bits fs))"
  using assms
proof (induction fs arbitrary: k mem)
  case Nil
  then show ?case by (simp add: total_bits_def)
next
  case (Cons a fs)
  obtain n v where a: "a = (n, v)" by (cases a)
  have n32: "unat n \<le> 32" and rest: "list_all (\<lambda>(n, v). unat n \<le> 32) fs"
    using Cons.prems(1) by (simp_all add: a)
  have tot: "total_bits ((n, v) # fs) = unat n + total_bits fs" by (simp add: total_bits_def)
  have room: "k + unat n \<le> 8 * length mem" using Cons.prems(2) tot by (simp add: a)
  from writebits_spec[OF room n32, of v]
  obtain mem1 where w: "writebits mem (cursor_at k) n v = Inr (mem1, cursor_at (k + unat n))"
    and len1: "length mem1 = length mem"
    and bits1: "\<And>i. getbit mem1 i = (getbit mem i \<or> (k \<le> i \<and> i < k + unat n \<and> bit v (i - k)))"
    by auto
  have zero1: "\<not> getbit mem1 i" if "k + unat n \<le> i" "i < 8 * length mem1" for i
    using that Cons.prems(3)[of i] len1 by (simp add: bits1)
  have room1: "(k + unat n) + total_bits fs \<le> 8 * length mem1"
    using Cons.prems(2) tot len1 by (simp add: a)
  from Cons.IH[OF rest room1 zero1]
  obtain mem' where w': "write_fields mem1 (cursor_at (k + unat n)) fs = Inr (mem', cursor_at (k + unat n + total_bits fs))"
    and len': "length mem' = length mem1"
    and frame: "\<And>i. i < k + unat n \<Longrightarrow> getbit mem' i = getbit mem1 i"
    and r': "read_fields mem' (cursor_at (k + unat n)) (map fst fs)
               = Inr (map (\<lambda>(n, v). take_bit (unat n) v) fs, cursor_at (k + unat n + total_bits fs))"
    by auto
  have room': "k + unat n \<le> 8 * length mem'" using room len' len1 by simp
  have rd: "readbits mem' (cursor_at k) n = Inr (field mem' k (unat n), cursor_at (k + unat n))"
    by (rule readbits_spec[OF room' n32])
  have val: "field mem' k (unat n) = take_bit (unat n) v"
  proof (rule bit_eqI)
    fix j
    show "bit (field mem' k (unat n)) j = bit (take_bit (unat n) v) j"
    proof (cases "j < unat n")
      case True
      then have "k + j < 8 * length mem" using room by simp
      then have "\<not> getbit mem (k + j)" using Cons.prems(3)[of "k + j"] by simp
      then have "getbit mem' (k + j) = bit v j" using True by (simp add: frame bits1)
      then show ?thesis using True by (auto simp add: bit_field bit_take_bit_iff dest: bit_imp_le_length)
    next
      case False
      then show ?thesis by (simp add: bit_field bit_take_bit_iff)
    qed
  qed
  have "\<forall>i<k. getbit mem' i = getbit mem i" by (simp add: frame bits1)
  then show ?case
    using w w' rd r' val len' len1 by (simp add: a tot add.assoc)
qed

lemma getbit_replicate_0: "i < 8 * sz \<Longrightarrow> \<not> getbit (replicate sz 0) i"
  by (simp add: getbit_def)

text \<open>
  C7. For any sequence of fields, each with a width \<open>n\<close> between 1 and 32 and a value \<open>v\<close>,
  writing them in order with \<open>writebits\<close> into a zeroed buffer that has room for all of
  them and reading them back with \<open>readbits\<close> and the same widths from the start of the
  buffer gives, for each field, the low \<open>n\<close> bits of \<open>v\<close> (\<open>v\<close> itself when \<open>v < 2^n\<close>); both
  cursors end at the total number of bits written. \<open>writebits\<close> writes the \<open>n\<close> low bits of
  \<open>v\<close> and no more, so a value of \<open>n + 1\<close> bits or more does not come back.
\<close>

theorem bit_packing_roundtrip:
  assumes "list_all (\<lambda>(n, v). 1 \<le> unat n \<and> unat n \<le> 32) fs"
    and "total_bits fs \<le> 8 * sz"
  shows "\<exists>mem. write_fields (replicate sz 0) (0, 0) fs = Inr (mem, cursor_at (total_bits fs))
           \<and> read_fields mem (0, 0) (map fst fs)
               = Inr (map (\<lambda>(n, v). take_bit (unat n) v) fs, cursor_at (total_bits fs))"
proof -
  have w: "list_all (\<lambda>(n, v). unat n \<le> 32) fs"
    using assms(1) by (auto simp add: list_all_iff)
  have c0: "cursor_at 0 = (0, 0)" by (simp add: cursor_at_def)
  from fields_roundtrip[of fs 0 "replicate sz 0", OF w] assms(2) getbit_replicate_0
  show ?thesis by (auto simp add: c0)
qed

text \<open>A field of 3 bits and one of 9 bits, in two bytes.\<close>

theorem bit_packing_roundtrip_witness:
  "list_all (\<lambda>(n, v). 1 \<le> unat n \<and> unat n \<le> 32) [(3 :: u32, 5 :: u32), (9, 300)]
    \<and> total_bits [(3, 5), (9, 300)] \<le> 8 * 2
    \<and> (\<exists>mem. write_fields (replicate 2 0) (0, 0) [(3, 5), (9, 300)] = Inr (mem, (1, 4))
          \<and> read_fields mem (0, 0) [3, 9] = Inr ([5, 300], (1, 4)))"
  using bit_packing_roundtrip[of "[(3, 5), (9, 300)]" 2]
  by (simp add: total_bits_def cursor_at_def)

text \<open>The value 2 in a field of one bit: 0 is written, and 0 is read back.\<close>

theorem bit_packing_truncates:
  "write_fields (replicate 1 0) (0, 0) [(1, 2)] = Inr ([0], (0, 1))
    \<and> read_fields [0] (0, 0) [1] = Inr ([0], (0, 1))
    \<and> [0] \<noteq> [2 :: u32]"
  by (simp add: writebits_def readbits_def advance_def)


section \<open>The length check of decrypt_file\<close>

lemma ucast_of_int_64_32: "(ucast (word_of_int x :: u64) :: u32) = word_of_int x"
  by (rule bit_eqI) (auto simp add: bit_simps)

lemma sint_of_int_32: "- 2147483648 \<le> k \<Longrightarrow> k < 2147483648 \<Longrightarrow> sint (word_of_int k :: u32) = k"
  by (simp add: sint_sbintrunc' signed_take_bit_int_eq_self)

lemma sint_of_int_64: "- 9223372036854775808 \<le> k \<Longrightarrow> k < 9223372036854775808 \<Longrightarrow> sint (word_of_int k :: u64) = k"
  by (simp add: sint_sbintrunc' signed_take_bit_int_eq_self)

lemma sdiv_nonneg: "0 \<le> a \<Longrightarrow> 0 \<le> b \<Longrightarrow> (a::int) sdiv b = a div b"
  by (cases "b = 0"; cases "a = 0") (simp_all add: signed_divide_int_def sgn_if)

lemma sint_ucast_u32_u64: "sint (ucast (w::u32) :: u64) = uint w"
proof -
  have "(ucast w :: u64) = word_of_int (uint w)" by simp
  moreover have "0 \<le> uint w" by simp
  then have "- 9223372036854775808 \<le> uint w" by linarith
  moreover have "uint w < 4294967296" using uint_lt2p[of w] by simp
  then have "uint w < 9223372036854775808" by linarith
  ultimately show ?thesis by (simp only: sint_of_int_64)
qed

lemma lendiff_value:
  assumes "- 2147483648 \<le> int L - (int buflen - 8)" "int L - (int buflen - 8) < 2147483648"
  shows "sint (lendiff (word_of_nat L) buflen) = int L - (int buflen - 8)"
proof -
  have "(word_of_nat L :: u64) - (word_of_nat buflen - 8) = word_of_int (int L - (int buflen - 8))"
    by simp
  then have "lendiff (word_of_nat L) buflen = word_of_int (int L - (int buflen - 8))"
    unfolding lendiff_def by (simp only: ucast_of_int_64_32)
  then show ?thesis using assms by (simp only: sint_of_int_32)
qed

lemma maxdiff_value:
  assumes "L < 9223372036854775808" "int L div uint dstbits + 9 < 2147483648"
  shows "sint (maxdiff (word_of_nat L) dstbits) = int L div uint dstbits + 9"
    and "sint (- maxdiff (word_of_nat L) dstbits) = - (int L div uint dstbits + 9)"
proof -
  have sL: "sint (word_of_nat L :: u64) = int L"
    using assms(1) sint_of_int_64[of "int L"] by simp
  have q0: "0 \<le> int L div uint dstbits" by (simp add: pos_imp_zdiv_nonneg_iff div_int_pos_iff)
  have "long_div (word_of_nat L) (ucast dstbits) = word_of_int (int L sdiv uint dstbits)"
    by (simp only: long_div_def sL sint_ucast_u32_u64)
  also have "int L sdiv uint dstbits = int L div uint dstbits"
    by (rule sdiv_nonneg) simp_all
  finally have "long_div (word_of_nat L) (ucast dstbits) + 1 + 8 = word_of_int (int L div uint dstbits + 9)"
    by simp
  then have m: "maxdiff (word_of_nat L) dstbits = word_of_int (int L div uint dstbits + 9)"
    unfolding maxdiff_def by (simp only: ucast_of_int_64_32)
  show "sint (maxdiff (word_of_nat L) dstbits) = int L div uint dstbits + 9"
    unfolding m using assms(2) q0 by (intro sint_of_int_32) simp_all
  have "- maxdiff (word_of_nat L) dstbits = word_of_int (- (int L div uint dstbits + 9))"
    unfolding m by simp
  moreover have "sint (word_of_int (- (int L div uint dstbits + 9)) :: u32) = - (int L div uint dstbits + 9)"
    using assms(2) q0 by (intro sint_of_int_32) simp_all
  ultimately show "sint (- maxdiff (word_of_nat L) dstbits) = - (int L div uint dstbits + 9)"
    by simp
qed

lemma corrupted_small:
  assumes "L < 9223372036854775808"
    and "- 2147483648 \<le> int L - (int buflen - 8)" "int L - (int buflen - 8) < 2147483648"
    and "int L div uint dstbits + 9 < 2147483648"
  shows "corrupted (word_of_nat L) buflen dstbits
       = (int L - (int buflen - 8) < - (int L div uint dstbits + 9)
          \<or> int L div uint dstbits + 9 < int L - (int buflen - 8))"
proof -
  have sL: "sint (word_of_nat L :: u64) = int L"
    using assms(1) sint_of_int_64[of "int L"] by simp
  show ?thesis
    unfolding corrupted_def lendiff_value[OF assms(2,3)] maxdiff_value[OF assms(1,4)] sL by simp
qed

lemma readbits_loop_error: "readbits_loop mem cur n counter result = Inl err \<Longrightarrow> err = Fault"
  by (induction n arbitrary: cur counter result) (auto split: if_splits)

lemma writebits_loop_error: "writebits_loop mem cur n counter v = Inl err \<Longrightarrow> err = Fault"
  by (induction n arbitrary: mem cur counter) (auto split: if_splits)

lemma ab_mod_n_error: "ab_mod_n a b n = Inl err \<Longrightarrow> err = Fault"
  by (auto simp add: ab_mod_n_def split: if_splits)

lemma readbits_error: "readbits mem cur n = Inl err \<Longrightarrow> err = Fault"
  unfolding readbits_def by (rule readbits_loop_error)

lemma writebits_error: "writebits mem cur n v = Inl err \<Longrightarrow> err = Fault"
  unfolding writebits_def by (rule writebits_loop_error)

lemma decrypt_loop_error:
  "decrypt_loop d n buf decrpt_src decrpt decrpt_dst endmark = Inl err \<Longrightarrow> err = Fault"
proof (induction d n buf decrpt_src decrpt decrpt_dst endmark rule: decrypt_loop.induct)
  case (1 d n buf decrpt_src decrpt decrpt_dst endmark)
  note unf = decrypt_loop.simps[of d n buf decrpt_src decrpt decrpt_dst endmark]
  show ?case
  proof (cases "fst decrpt_dst \<le> endmark")
    case False
    with "1.prems" show ?thesis by (simp add: unf)
  next
    case True
    show ?thesis
    proof (cases "readbits buf decrpt_src (word_of_nat (bitsize n))")
      case (Inl e1)
      with "1.prems" True have "err = e1" by (simp add: unf)
      with Inl show ?thesis by (auto dest: readbits_error)
    next
      case (Inr x)
      obtain v decrpt_src' where x: "x = (v, decrpt_src')" by (cases x)
      show ?thesis
      proof (cases "ab_mod_n v d n")
        case (Inl e2)
        with "1.prems" True Inr x have "err = e2" by (simp add: unf)
        with Inl show ?thesis by (auto dest: ab_mod_n_error)
      next
        case c: (Inr c)
        show ?thesis
        proof (cases "writebits decrpt decrpt_dst (word_of_nat (bitsize n) - 1) c")
          case (Inl e3)
          with "1.prems" True Inr x c have "err = e3" by (simp add: unf)
          with Inl show ?thesis by (auto dest: writebits_error)
        next
          case z: (Inr z)
          obtain decrpt' decrpt_dst' where z': "z = (decrpt', decrpt_dst')" by (cases z)
          from "1.prems" True Inr x c z z'
          have "decrypt_loop d n buf decrpt_src' decrpt' decrpt_dst' endmark = Inl err"
            by (simp add: unf)
          then show ?thesis
            using "1.IH"[OF True Inr x[symmetric] c z z'[symmetric]] by simp
        qed
      qed
    qed
  qed
qed


lemma decrypt_file_corrupt_iff:
  "(decrypt_file junk junk' file d n = Inl CorruptFileError)
   = (file \<noteq> [] \<and> corrupted (off_t_value (read_file junk file)) (length file) (word_of_nat (bitsize n) - 1))"
proof (cases "file = []")
  case True
  then show ?thesis by (simp add: decrypt_file_def)
next
  case False
  show ?thesis
  proof (cases "corrupted (off_t_value (read_file junk file)) (length file) (word_of_nat (bitsize n) - 1)")
    case True
    with False show ?thesis by (simp add: decrypt_file_def Let_def)
  next
    case nc: False
    have "decrypt_file junk junk' file d n \<noteq> Inl CorruptFileError"
      using False nc
      by (auto simp add: decrypt_file_def Let_def split: sum.splits prod.splits dest: decrypt_loop_error)
    with nc show ?thesis by simp
  qed
qed

lemma decrypt_file_negative_header:
  assumes "file \<noteq> []" "sint (off_t_value (read_file junk file)) < 0"
  shows "decrypt_file junk junk' file d n = Inl CorruptFileError"
  using assms by (simp add: decrypt_file_corrupt_iff corrupted_def)

text \<open>
  C8. Decryption is meant to fail with the corrupt-file error exactly when the length \<open>L\<close>
  in the header is negative or differs from the length of the rest of the file by more
  than \<open>L / dstbits + 9\<close>. The difference and the bound are cut to 32-bit \<open>int\<close> before they
  are compared. A file made of the header \<open>2^32\<close> and five more bytes, decrypted with
  \<open>n = 2582299\<close> (\<open>dstbits = 21\<close>), is off by \<open>2^32 - 5\<close>, far more than the bound
  \<open>204522261\<close>; \<open>lendiff\<close> is \<open>-5\<close> after the cut and the file is not refused.
\<close>

theorem decrypt_file_accepts_wrong_length:
  "decrypt_file (\<lambda>_. 0) (\<lambda>_. 0) (off_t_bytes 4294967296 @ [0, 0, 0, 0, 0]) 1719387 2582299
     \<noteq> Inl CorruptFileError
   \<and> off_t_value (off_t_bytes 4294967296 @ [0, 0, 0, 0, 0]) = 4294967296
   \<and> bitsize 2582299 - 1 = 21
   \<and> (4294967296 div 21 + 9 :: int) < 4294967296 - 5"
  by (simp add: decrypt_file_corrupt_iff off_t_value_def read_file_def off_t_bytes_def malloc_def
      upt_rec bitsize_eq bitlength.simps corrupted_def lendiff_def maxdiff_def long_div_def)

section \<open>check_gcd on arguments that fit an int\<close>

text \<open>
  With both arguments below \<open>2^31\<close> the \<open>int\<close> variables hold what the arguments say, no
  quotient overflows, and \<open>check_gcd\<close> returns the inverse or 0. Outside that range it can
  even trap: \<open>f = 2^31\<close> is read as \<open>INT_MIN\<close> and \<open>d = 2^32 - 1\<close> as \<open>-1\<close>.
\<close>

lemma check_gcd_division_overflow: "check_gcd 4294967295 2147483648 = Inl Fault"
  by (simp add: check_gcd_def check_gcd_loop.simps int_div_def)

lemma sint_of_int_small: "- 2147483648 \<le> k \<Longrightarrow> k < 2147483648 \<Longrightarrow> sint (word_of_int k :: u32) = k"
  by (simp add: sint_sbintrunc' signed_take_bit_int_eq_self)

lemma uint_of_int_small: "0 \<le> k \<Longrightarrow> k < 4294967296 \<Longrightarrow> uint (word_of_int k :: u32) = k"
  by (simp add: uint_word_of_int take_bit_int_eq_self)

lemma coeff_sign: 
  fixes X2 Y2 Q :: int
  assumes "X2 * Y2 \<le> 0" "0 \<le> Q"
  shows "Y2 * (X2 - Q * Y2) \<le> 0"
proof -
  have "Y2 * (X2 - Q * Y2) = X2 * Y2 - Q * (Y2 * Y2)" by (simp add: algebra_simps)
  moreover have "0 \<le> Q * (Y2 * Y2)" using assms(2) by simp
  ultimately show ?thesis using assms(1) by linarith
qed

lemma coeff_abs:
  fixes X2 Y2 Q :: int
  assumes "X2 * Y2 \<le> 0" "0 \<le> Q"
  shows "\<bar>X2 - Q * Y2\<bar> = \<bar>X2\<bar> + Q * \<bar>Y2\<bar>"
proof (cases "0 < Y2")
  case True
  then have "X2 \<le> 0" using assms(1) by (simp add: mult_le_0_iff)
  moreover have "0 \<le> Q * Y2" using True assms(2) by simp
  ultimately show ?thesis using True by simp
next
  case False
  show ?thesis
  proof (cases "Y2 = 0")
    case True
    then show ?thesis by simp
  next
    case F2: False
    then have neg: "Y2 < 0" using False by simp
    then have "0 \<le> X2" using assms(1) by (simp add: mult_le_0_iff)
    moreover have "Q * Y2 \<le> 0" using neg assms(2) by (simp add: mult_le_0_iff)
    ultimately show ?thesis using neg by (simp add: abs_if algebra_simps)
  qed
qed

lemma coeff_det:
  fixes X2 Y2 X3 Y3 Q F :: int
  assumes "X2 * Y2 \<le> 0" "0 \<le> Q" "\<bar>X2\<bar> * Y3 + \<bar>Y2\<bar> * X3 = F"
  shows "\<bar>Y2\<bar> * (X3 - Q * Y3) + \<bar>X2 - Q * Y2\<bar> * Y3 = F"
  unfolding coeff_abs[OF assms(1,2)] using assms(3) by (simp add: algebra_simps)


lemma check_gcd_loop_ideal:
  fixes X2 Y2 X3 Y3 F D :: int
  assumes "x2 = word_of_int X2" "y2 = word_of_int Y2" "x3 = word_of_int X3" "y3 = word_of_int Y3"
    and "f = word_of_int F" "1 < F" "F < 2147483648"
    and "2 \<le> X3" "X3 < 2147483648" "0 \<le> Y3" "Y3 < 2147483648"
    and "X2 * Y2 \<le> 0"
    and "\<bar>X2\<bar> * Y3 + \<bar>Y2\<bar> * X3 = F"
    and "\<exists>k. k * F + X2 * D = X3" "\<exists>k. k * F + Y2 * D = Y3"
    and "gcd X3 Y3 = gcd F D"
  shows "\<exists>r. check_gcd_loop f (x1, x2, x3) (y1, y2, y3) = Inr r
           \<and> (if gcd F D = 1 then 0 < uint r \<and> uint r < F \<and> (uint r * D) mod F = 1 else r = 0)"
  using assms
proof (induction "nat Y3" arbitrary: x1 x2 x3 y1 y2 y3 X2 Y2 X3 Y3 rule: less_induct)
  case less
  note p = less.prems
  have sx3: "sint x3 = X3" using p(3,8,9) by (simp add: sint_of_int_small)
  have sy3: "sint y3 = Y3" using p(4,10,11) by (simp add: sint_of_int_small)
  consider (zero) "Y3 = 0" | (one) "Y3 = 1" | (more) "2 \<le> Y3" using p(10) by linarith
  then show ?case
  proof cases
    case zero
    then have "gcd F D = X3" using p(16,8) by simp
    then have "gcd F D \<noteq> 1" using p(8) by simp
    moreover have "y3 = 0" using zero p(4) by simp
    ultimately show ?thesis by (simp add: check_gcd_loop.simps)
  next
    case one
    then have g: "gcd F D = 1" using p(16) by simp
    have y3: "y3 = 1" "y3 \<noteq> 0" using one p(4) by simp_all
    have "\<bar>Y2\<bar> * 2 \<le> \<bar>Y2\<bar> * X3" using p(8) by (intro mult_left_mono) simp_all
    moreover have "\<bar>Y2\<bar> * X3 \<le> F" using p(13) one by simp
    ultimately have bound: "2 * \<bar>Y2\<bar> \<le> F" by linarith
    have sy2: "sint y2 = Y2" using p(2,7) bound by (simp add: sint_of_int_small)
    obtain k where k: "k * F + Y2 * D = 1" using p(15) one by auto
    have Y2_nz: "Y2 \<noteq> 0"
    proof
      assume "Y2 = 0"
      with k have "k * F = 1" by simp
      then show False using p(6) by (auto simp add: zmult_eq_1_iff)
    qed
    have c: "(Y2 * D) mod F = 1"
    proof -
      have "Y2 * D = 1 + (- k) * F" using k by simp
      then have "(Y2 * D) mod F = 1 mod F" by (metis mod_mult_self2 mult.commute)
      then show ?thesis using p(6) by simp
    qed
    show ?thesis
    proof (cases "Y2 < 0")
      case True
      have fy: "f + y2 = word_of_int (F + Y2)" unfolding p(2) p(5) by simp
      have "0 < F + Y2" "F + Y2 < F" "F + Y2 < 4294967296" using True bound p(6,7) by linarith+
      then have r: "uint (f + y2) = F + Y2" unfolding fy by (intro uint_of_int_small) simp_all
      have "((F + Y2) * D) mod F = (Y2 * D) mod F"
        by (simp add: algebra_simps)
      with c r \<open>0 < F + Y2\<close> \<open>F + Y2 < F\<close> True g y3 sy2 show ?thesis
        by (simp add: check_gcd_loop.simps)
    next
      case False
      then have "0 < Y2" "Y2 < F" "Y2 < 4294967296" using Y2_nz bound p(6,7) by linarith+
      then have r: "uint y2 = Y2" using p(2) by (simp add: uint_of_int_small)
      with c \<open>0 < Y2\<close> \<open>Y2 < F\<close> False g y3 sy2 show ?thesis
        by (simp add: check_gcd_loop.simps)
    qed
  next
    case more
    define Q where "Q = X3 div Y3"
    have Q0: "0 \<le> Q" using p(8) more by (simp add: Q_def pos_imp_zdiv_nonneg_iff)
    have y3: "y3 \<noteq> 0" "y3 \<noteq> 1"
      using more p(11) sy3 by auto
    have "x3 \<noteq> 2147483648" using sx3 p(8) by auto
    then have q: "int_div x3 y3 = Inr (word_of_int Q)"
      using p(8) more y3(1) by (simp add: int_div_def sx3 sy3 Q_def signed_divide_int_def sgn_if)
    have rem: "X3 - Q * Y3 = X3 mod Y3" by (simp add: Q_def minus_div_mult_eq_mod)
    have unf: "check_gcd_loop f (x1, x2, x3) (y1, y2, y3)
        = check_gcd_loop f (y1, y2, y3) (x1 - word_of_int Q * y1, x2 - word_of_int Q * y2, x3 - word_of_int Q * y3)"
      using y3 by (subst check_gcd_loop.simps) (simp add: q Let_def)
    have "\<exists>r. check_gcd_loop f (y1, y2, y3)
                (x1 - word_of_int Q * y1, x2 - word_of_int Q * y2, x3 - word_of_int Q * y3) = Inr r
           \<and> (if gcd F D = 1 then 0 < uint r \<and> uint r < F \<and> (uint r * D) mod F = 1 else r = 0)"
    proof (rule less.hyps[where ?X2.0 = Y2 and ?Y2.0 = "X2 - Q * Y2" and ?X3.0 = Y3 and ?Y3.0 = "X3 mod Y3"])
      show "nat (X3 mod Y3) < nat Y3" using more by simp
      show "y2 = word_of_int Y2" by (rule p(2))
      show "x2 - word_of_int Q * y2 = word_of_int (X2 - Q * Y2)" using p(1,2) by simp
      show "y3 = word_of_int Y3" by (rule p(4))
      show "x3 - word_of_int Q * y3 = word_of_int (X3 mod Y3)" using p(3,4) rem[symmetric] by simp
      show "f = word_of_int F" "1 < F" "F < 2147483648" by (rule p(5) p(6) p(7))+
      show "2 \<le> Y3" by (rule more)
      show "Y3 < 2147483648" by (rule p(11))
      show "0 \<le> X3 mod Y3" using more by simp
      have "X3 mod Y3 < Y3" using more by simp
      then show "X3 mod Y3 < 2147483648" using p(11) by linarith
      show "Y2 * (X2 - Q * Y2) \<le> 0" by (rule coeff_sign[OF p(12) Q0])
      show "\<bar>Y2\<bar> * (X3 mod Y3) + \<bar>X2 - Q * Y2\<bar> * Y3 = F"
        using coeff_det[OF p(12) Q0 p(13)] by (simp add: rem)
      show "\<exists>k. k * F + Y2 * D = Y3" by (rule p(15))
      show "\<exists>k. k * F + (X2 - Q * Y2) * D = X3 mod Y3"
      proof -
        obtain k where k: "k * F + X2 * D = X3" using p(14) by auto
        obtain l where l: "l * F + Y2 * D = Y3" using p(15) by auto
        have "(k - Q * l) * F + (X2 - Q * Y2) * D = (k * F + X2 * D) - Q * (l * F + Y2 * D)"
          by (simp add: algebra_simps)
        then have "(k - Q * l) * F + (X2 - Q * Y2) * D = X3 mod Y3" using k l rem by simp
        then show ?thesis by blast
      qed
      show "gcd Y3 (X3 mod Y3) = gcd F D" using p(16) by (simp add: gcd.commute gcd_red_int[symmetric])
    qed
    then show ?thesis unfolding unf .
  qed
qed

section \<open>Prime numbers and the RSA exponents\<close>

lemma prime_nat_iff: "prime_nat p = (1 < p \<and> (\<forall>m. m dvd p \<longrightarrow> m = 1 \<or> m = p))"
proof
  assume h: "prime_nat p"
  then have p1: "1 < p" and nd: "\<And>m. 2 \<le> m \<Longrightarrow> m < p \<Longrightarrow> \<not> m dvd p"
    by (auto simp add: prime_nat_def list_all_iff)
  have "m = 1 \<or> m = p" if "m dvd p" for m
  proof -
    have "m \<le> p" using that p1 by (intro dvd_imp_le) simp_all
    moreover have "m \<noteq> 0" using that p1 by (metis dvd_0_left_iff not_less_zero)
    ultimately show ?thesis using nd[of m] that by (cases "m = 1"; cases "m = p") auto
  qed
  with p1 show "1 < p \<and> (\<forall>m. m dvd p \<longrightarrow> m = 1 \<or> m = p)" by blast
next
  assume "1 < p \<and> (\<forall>m. m dvd p \<longrightarrow> m = 1 \<or> m = p)"
  then show "prime_nat p" by (auto simp add: prime_nat_def list_all_iff)
qed

lemma prime_nat_coprime:
  assumes "prime_nat p" "\<not> p dvd k"
  shows "coprime p k"
proof -
  have "gcd p k dvd p" by simp
  then have "gcd p k = 1 \<or> gcd p k = p" using assms(1) by (simp add: prime_nat_iff)
  moreover have "gcd p k \<noteq> p" using assms(2) by (metis gcd_dvd2)
  ultimately show ?thesis by (simp add: coprime_iff_gcd_eq_1)
qed

lemma prime_dvd_binomial:
  assumes "prime_nat p" "0 < k" "k < p"
  shows "p dvd (p choose k)"
proof -
  have "k * (p choose k) = p * ((p - 1) choose (k - 1))"
    using assms(2) by (rule times_binomial_minus1_eq)
  then have "p dvd k * (p choose k)" by simp
  moreover have "\<not> p dvd k" using assms(2,3) by (auto dest: dvd_imp_le)
  then have "coprime p k" using assms(1) by (rule prime_nat_coprime[rotated])
  ultimately show ?thesis by (simp add: coprime_dvd_mult_right_iff)
qed

lemma fermat_step:
  assumes "prime_nat p"
  shows "(a + 1) ^ p mod p = (a ^ p + 1) mod p"
proof -
  have p0: "0 < p" using assms by (simp add: prime_nat_iff)
  have "(a + 1) ^ p = (\<Sum>k\<le>p. (p choose k) * a ^ k)"
    using binomial_ring[of a 1 p] by simp
  then have "(a + 1) ^ p mod p = (\<Sum>k\<le>p. ((p choose k) * a ^ k) mod p) mod p"
    by (simp add: mod_sum_eq)
  also have "(\<Sum>k\<le>p. ((p choose k) * a ^ k) mod p)
           = (\<Sum>k\<le>p. (if k = 0 then 1 mod p else 0) + (if k = p then a ^ p mod p else 0))"
  proof (rule sum.cong)
    fix k assume "k \<in> {..p}"
    then have kp: "k \<le> p" by simp
    consider "k = 0" | "k = p" | "0 < k" "k < p" using kp by linarith
    then show "((p choose k) * a ^ k) mod p
        = (if k = 0 then 1 mod p else 0) + (if k = p then a ^ p mod p else 0)"
    proof cases
      case 1 then show ?thesis using p0 by simp
    next
      case 2 then show ?thesis using p0 by simp
    next
      case 3
      then have "p dvd (p choose k)" using assms by (intro prime_dvd_binomial)
      then have "p dvd (p choose k) * a ^ k" by simp
      then show ?thesis using 3 by (simp add: mod_eq_0_iff_dvd)
    qed
  qed simp
  also have "\<dots> = 1 mod p + a ^ p mod p"
    by (simp add: sum.distrib)
  finally have "(a + 1) ^ p mod p = (1 mod p + a ^ p mod p) mod p" .
  then show ?thesis by (simp only: mod_add_eq add.commute)
qed

lemma fermat_little: "prime_nat p \<Longrightarrow> a ^ p mod p = a mod p"
proof (induction a)
  case 0
  then show ?case by (simp add: prime_nat_iff power_0_left)
next
  case (Suc a)
  have "(Suc a) ^ p mod p = (a ^ p + 1) mod p"
    using fermat_step[OF Suc.prems, of a] by simp
  also have "\<dots> = (a ^ p mod p + 1) mod p" by (simp only: mod_add_left_eq)
  also have "\<dots> = (a mod p + 1) mod p" using Suc by simp
  also have "\<dots> = (a + 1) mod p" by (simp only: mod_add_left_eq)
  finally show ?case by simp
qed


lemma fermat_power:
  assumes "prime_nat p"
  shows "m ^ (1 + k * (p - 1)) mod p = m mod p"
proof (induction k)
  case 0
  then show ?case by simp
next
  case (Suc k)
  have p0: "0 < p" using assms by (simp add: prime_nat_iff)
  then have e: "1 + Suc k * (p - 1) = k * (p - 1) + p" by simp
  have "m ^ (1 + Suc k * (p - 1)) mod p = (m ^ (k * (p - 1)) * m ^ p) mod p"
    by (simp only: e power_add)
  also have "\<dots> = (m ^ (k * (p - 1)) * (m ^ p mod p)) mod p"
    by (simp only: mod_mult_right_eq)
  also have "\<dots> = (m ^ (k * (p - 1)) * (m mod p)) mod p"
    by (simp only: fermat_little[OF assms])
  also have "\<dots> = (m ^ (k * (p - 1)) * m) mod p"
    by (simp only: mod_mult_right_eq)
  also have "\<dots> = m ^ (1 + k * (p - 1)) mod p"
    by (simp add: mult.commute)
  finally show ?case using Suc by simp
qed

lemma distinct_primes_coprime:
  assumes "prime_nat p" "prime_nat q" "p \<noteq> q"
  shows "coprime p q"
proof -
  have "\<not> p dvd q"
  proof
    assume "p dvd q"
    then have "p = 1 \<or> p = q" using assms(2) by (simp add: prime_nat_iff)
    then show False using assms(1,3) by (auto simp add: prime_nat_iff)
  qed
  then show ?thesis using assms(1) by (rule prime_nat_coprime[rotated])
qed

lemma mod_eq_product:
  fixes a b p q :: nat
  assumes "coprime p q" "a mod p = b mod p" "a mod q = b mod q" "b \<le> a"
  shows "a mod (p * q) = b mod (p * q)"
proof -
  have "p dvd a - b" using assms(2,4) by (simp add: mod_eq_dvd_iff_nat)
  moreover have "q dvd a - b" using assms(3,4) by (simp add: mod_eq_dvd_iff_nat)
  ultimately have "p * q dvd a - b" using assms(1) by (simp add: divides_mult)
  then show ?thesis using assms(4) by (simp add: mod_eq_dvd_iff_nat)
qed

lemma rsa_exponent:
  assumes "prime_nat p" "prime_nat q" "p \<noteq> q" "x mod ((p - 1) * (q - 1)) = 1"
  shows "m ^ x mod (p * q) = m mod (p * q)"
proof -
  define j where "j = x div ((p - 1) * (q - 1))"
  have x: "x = 1 + j * ((p - 1) * (q - 1))"
    using assms(4) div_mult_mod_eq[of x "(p - 1) * (q - 1)"] by (simp add: j_def)
  have "x = 1 + (j * (q - 1)) * (p - 1)" by (subst x) (simp add: mult.assoc mult.commute)
  then have mp: "m ^ x mod p = m mod p" using fermat_power[OF assms(1)] by simp
  have "x = 1 + (j * (p - 1)) * (q - 1)" by (subst x) (simp add: mult.assoc)
  then have mq: "m ^ x mod q = m mod q" using fermat_power[OF assms(2)] by simp
  have x0: "0 < x" using x by simp
  show ?thesis
  proof (cases "m = 0")
    case True
    then show ?thesis using x0 by (simp add: power_0_left)
  next
    case False
    then have "m \<le> m ^ x" using x0 by (metis One_nat_def Suc_leI less_eq_Suc_le neq0_conv power_one_right power_increasing)
    then show ?thesis
      using mod_eq_product[OF distinct_primes_coprime[OF assms(1,2,3)] mp mq] by simp
  qed
qed

lemma rsa_roundtrip:
  assumes "prime_nat p" "prime_nat q" "p \<noteq> q" "(e * d) mod ((p - 1) * (q - 1)) = 1" "m < p * q"
  shows "(m ^ e mod (p * q)) ^ d mod (p * q) = m"
proof -
  have "(m ^ e mod (p * q)) ^ d mod (p * q) = (m ^ e) ^ d mod (p * q)" by (rule power_mod)
  also have "\<dots> = m ^ (e * d) mod (p * q)" by (simp only: power_mult)
  also have "\<dots> = m mod (p * q)" by (rule rsa_exponent[OF assms(1,2,3,4)])
  finally show ?thesis using assms(5) by simp
qed

section \<open>is_prime and find_next_prime from 2 on\<close>

text \<open>
  \<open>sqrt_floor\<close> is the floor of the square root, so trial division up to it decides
  primality of every number from 2 on, and a search started at 2 or above reports the first
  prime among the odd numbers it tests.
\<close>

lemma sqrt_floor_correct:
  "sqrt_floor n * sqrt_floor n \<le> n \<and> n < (sqrt_floor n + 1) * (sqrt_floor n + 1)"
proof (induction n rule: sqrt_floor.induct)
  case (1 n)
  show ?case
  proof (cases "n = 0")
    case True
    then show ?thesis by (simp add: sqrt_floor.simps)
  next
    case False
    define r where "r = sqrt_floor (n div 4)"
    from 1[OF False] have lo: "r * r \<le> n div 4" and hi: "n div 4 < (r + 1) * (r + 1)"
      by (simp_all add: r_def)
    have a: "(2 * r) * (2 * r) \<le> n"
    proof -
      have "(2 * r) * (2 * r) = 4 * (r * r)" by simp
      also have "\<dots> \<le> 4 * (n div 4)" using lo by simp
      also have "\<dots> \<le> n" by simp
      finally show ?thesis .
    qed
    have b: "n < (2 * r + 2) * (2 * r + 2)"
    proof -
      have "n < 4 * (n div 4 + 1)" by simp
      also have "\<dots> \<le> 4 * ((r + 1) * (r + 1))" using hi by simp
      also have "\<dots> = (2 * r + 2) * (2 * r + 2)" by (simp add: algebra_simps)
      finally show ?thesis .
    qed
    have e: "sqrt_floor n = sqrt_step n (2 * r)"
      using False by (simp add: sqrt_floor.simps[of n] r_def)
    show ?thesis
    proof (cases "(2 * r + 1) * (2 * r + 1) \<le> n")
      case True
      then have "sqrt_floor n = 2 * r + 1" by (simp add: e sqrt_step_def)
      then show ?thesis using True b by (simp add: algebra_simps)
    next
      case False
      then have "sqrt_floor n = 2 * r" by (simp add: e sqrt_step_def)
      then show ?thesis using False a by (simp add: algebra_simps)
    qed
  qed
qed

lemma is_prime_loop_spec:
  "is_prime_loop p m i = (if \<exists>k. i \<le> k \<and> k \<le> m \<and> unat p mod k = 0 then 0 else 1)"
proof (induction p m i rule: is_prime_loop.induct)
  case (1 p m i)
  show ?case
  proof (cases "i \<le> m")
    case False
    then show ?thesis by (simp add: is_prime_loop.simps[of p m i])
  next
    case le: True
    show ?thesis
    proof (cases "unat p mod i = 0")
      case True
      then show ?thesis using le by (auto simp add: is_prime_loop.simps[of p m i])
    next
      case False
      have "(\<exists>k. i \<le> k \<and> k \<le> m \<and> unat p mod k = 0) = (\<exists>k. i + 1 \<le> k \<and> k \<le> m \<and> unat p mod k = 0)"
        using False by (metis Suc_eq_plus1 Suc_leI Suc_leD le_neq_implies_less)
      then show ?thesis using le False 1[OF le False] by (simp add: is_prime_loop.simps[of p m i])
    qed
  qed
qed

lemma small_divisor:
  fixes P :: nat
  assumes "2 \<le> P"
  shows "(\<exists>k. 2 \<le> k \<and> k \<le> sqrt_floor P \<and> P mod k = 0) = (\<not> prime_nat P)"
proof
  assume "\<exists>k. 2 \<le> k \<and> k \<le> sqrt_floor P \<and> P mod k = 0"
  then obtain k where k: "2 \<le> k" "k \<le> sqrt_floor P" "k dvd P" by auto
  have "k * k \<le> sqrt_floor P * sqrt_floor P" by (rule mult_le_mono[OF k(2) k(2)])
  also have "\<dots> \<le> P" using sqrt_floor_correct[of P] by simp
  finally have "k * k \<le> P" .
  moreover have "k < k * k" using k(1) by simp
  ultimately have "k < P" by linarith
  with k show "\<not> prime_nat P" by (auto simp add: prime_nat_iff)
next
  assume "\<not> prime_nat P"
  with assms obtain m where m: "m dvd P" "m \<noteq> 1" "m \<noteq> P" by (auto simp add: prime_nat_iff)
  then obtain c where c: "P = m * c" by (auto simp add: dvd_def)
  with assms m have m2: "2 \<le> m" and c2: "2 \<le> c"
    by (cases m; cases c; auto)+
  define r where "r = sqrt_floor P"
  have hi: "P < (r + 1) * (r + 1)" using sqrt_floor_correct[of P] by (simp add: r_def)
  have "m \<le> r \<or> c \<le> r"
  proof (rule ccontr)
    assume "\<not> (m \<le> r \<or> c \<le> r)"
    then have "r + 1 \<le> m" "r + 1 \<le> c" by simp_all
    then have "(r + 1) * (r + 1) \<le> m * c" by (rule mult_le_mono)
    with hi c show False by simp
  qed
  then show "\<exists>k. 2 \<le> k \<and> k \<le> sqrt_floor P \<and> P mod k = 0"
  proof
    assume "m \<le> r"
    then show ?thesis using m2 c by (intro exI[of _ m]) (simp add: r_def)
  next
    assume "c \<le> r"
    then show ?thesis using c2 c by (intro exI[of _ c]) (simp add: r_def)
  qed
qed

lemma is_prime_correct:
  assumes "2 \<le> unat p"
  shows "is_prime p = (if prime_nat (unat p) then 1 else 0)"
  using small_divisor[OF assms] by (simp add: is_prime_def is_prime_loop_spec)

lemma is_prime_small: "unat p < 2 \<Longrightarrow> is_prime p = 1"
proof -
  assume p: "unat p < 2"
  define r where "r = sqrt_floor (unat p)"
  have "r < 2"
  proof (rule ccontr)
    assume "\<not> r < 2"
    then have r2: "2 \<le> r" by simp
    have "2 * 2 \<le> r * r" by (rule mult_le_mono[OF r2 r2])
    moreover have "r * r \<le> unat p" using sqrt_floor_correct[of "unat p"] by (simp add: r_def)
    ultimately show False using p by simp
  qed
  then show ?thesis by (auto simp add: is_prime_def is_prime_loop_spec r_def)
qed

lemma odd_unat_bit: "odd (unat n) = bit n 0" for n :: u32
proof -
  have "bit (unat n) 0 = bit n 0" by (simp add: bit_unsigned_iff)
  then show ?thesis by (simp only: bit_0)
qed

lemma and_one_zero: "(n AND 1 = 0) = (\<not> bit n 0)" for n :: u32
  by (simp add: and_one_eq bit_0 even_iff_mod_2_eq_zero)

lemma or_one_even: "\<not> bit n 0 \<Longrightarrow> n OR 1 = n + 1" for n :: u32
  by (simp add: or_one_eq bit_0)

lemma unat_max: "n + 1 \<noteq> 0 \<Longrightarrow> unat n \<noteq> 4294967295" for n :: u32
proof
  assume a: "n + 1 \<noteq> 0" and "unat n = 4294967295"
  then have "word_of_nat (unat n) = (word_of_nat 4294967295 :: u32)" by simp
  then have "n = 4294967295" by simp
  with a show False by simp
qed

lemma unat_add_2:
  fixes n :: u32
  assumes "n + 1 \<noteq> 0" "odd (unat n)"
  shows "unat (n + 2) = unat n + 2"
proof -
  have "unat n \<noteq> 4294967294" using assms(2) by auto
  with unat_max[OF assms(1)] have "unat n + 2 < 4294967296" using unat_u32_lt[of n] by linarith
  then show ?thesis by (simp add: unat_word_ariths)
qed

lemma unat_add_1:
  fixes n :: u32
  assumes "even (unat n)"
  shows "unat (n + 1) = unat n + 1"
proof -
  have "unat n \<noteq> 4294967295" using assms by auto
  then have "unat n + 1 < 4294967296" using unat_u32_lt[of n] by linarith
  then show ?thesis by (simp add: unat_word_ariths)
qed

lemma find_next_prime_loop_spec:
  "odd (unat n) \<Longrightarrow> find_next_prime_loop n = Inr r \<Longrightarrow>
     is_prime r \<noteq> 0 \<and> unat n \<le> unat r
     \<and> (\<forall>m. unat n \<le> m \<and> m < unat r \<and> odd m \<longrightarrow> is_prime (word_of_nat m) = 0)"
proof (induction n rule: find_next_prime_loop.induct)
  case (1 n)
  from 1(3) have n1: "n + 1 \<noteq> 0"
    by (auto simp add: find_next_prime_loop.simps[of n] split: if_splits)
  show ?case
  proof (cases "is_prime n \<noteq> 0")
    case True
    then have "r = n" using 1(3) n1 by (simp add: find_next_prime_loop.simps[of n])
    with True show ?thesis by auto
  next
    case False
    then have res: "find_next_prime_loop (n + 2) = Inr r"
      using 1(3) n1 by (simp add: find_next_prime_loop.simps[of n])
    have u: "unat (n + 2) = unat n + 2" by (rule unat_add_2[OF n1 1(2)])
    then have "odd (unat (n + 2))" using 1(2) by simp
    from 1(1)[OF n1 False this res] u
    have ih: "is_prime r \<noteq> 0" "unat n + 2 \<le> unat r"
      "\<And>m. unat n + 2 \<le> m \<Longrightarrow> m < unat r \<Longrightarrow> odd m \<Longrightarrow> is_prime (word_of_nat m) = 0"
      by simp_all
    have "is_prime (word_of_nat m) = 0" if m: "unat n \<le> m" "m < unat r" "odd m" for m
    proof (cases "unat n + 2 \<le> m")
      case True
      then show ?thesis using m by (intro ih(3))
    next
      case False
      then have "m = unat n \<or> m = unat n + 1" using m(1) by linarith
      then have "m = unat n" using m(3) 1(2) by auto
      then show ?thesis using \<open>\<not> is_prime n \<noteq> 0\<close> by simp
    qed
    with ih(1,2) show ?thesis by simp
  qed
qed

lemma find_next_prime_correct:
  assumes "2 \<le> unat n" "find_next_prime n = Inr r"
  shows "prime_nat (unat r) \<and> unat n \<le> unat r
       \<and> (\<forall>m. unat n \<le> m \<and> m < unat r \<and> odd m \<longrightarrow> \<not> prime_nat m)"
proof -
  define n' where "n' = (if n AND 1 = 0 then n OR 1 else n)"
  have res: "find_next_prime_loop n' = Inr r" using assms(2) by (simp add: find_next_prime_def n'_def)
  have n': "odd (unat n')" "unat n \<le> unat n'" "\<And>m. unat n \<le> m \<Longrightarrow> odd m \<Longrightarrow> unat n' \<le> m"
  proof -
    have "odd (unat n') \<and> unat n \<le> unat n' \<and> (\<forall>m. unat n \<le> m \<and> odd m \<longrightarrow> unat n' \<le> m)"
    proof (cases "bit n 0")
      case True
      then have "n' = n" by (simp add: n'_def and_one_zero)
      moreover have "odd (unat n)" using True odd_unat_bit[of n] by blast
      ultimately show ?thesis by blast
    next
      case False
      then have e: "even (unat n)" using odd_unat_bit[of n] by blast
      have "n' = n + 1" using False by (simp add: n'_def and_one_zero or_one_even)
      then have u: "unat n' = unat n + 1" using unat_add_1[OF e] by simp
      have "unat n' \<le> m" if "unat n \<le> m" "odd m" for m
      proof -
        have "m \<noteq> unat n" using e that(2) by blast
        then show ?thesis using that(1) u by simp
      qed
      moreover have "odd (unat n')" unfolding u using e by simp
      ultimately show ?thesis using u by simp
    qed
    then show "odd (unat n')" "unat n \<le> unat n'" "\<And>m. unat n \<le> m \<Longrightarrow> odd m \<Longrightarrow> unat n' \<le> m"
      by blast+
  qed
  from find_next_prime_loop_spec[OF n'(1) res]
  have sp: "is_prime r \<noteq> 0" "unat n' \<le> unat r"
    "\<And>m. unat n' \<le> m \<Longrightarrow> m < unat r \<Longrightarrow> odd m \<Longrightarrow> is_prime (word_of_nat m) = 0"
    by simp_all
  have r2: "2 \<le> unat r" using assms(1) n'(2) sp(2) by simp
  have "prime_nat (unat r)" using is_prime_correct[OF r2] sp(1) by (simp split: if_splits)
  moreover have "unat n \<le> unat r" using n'(2) sp(2) by simp
  moreover have "\<not> prime_nat m" if m: "unat n \<le> m" "m < unat r" "odd m" for m
  proof -
    have "m < 4294967296" using m(2) unat_u32_lt[of r] by simp
    then have um: "unat (word_of_nat m :: u32) = m" by (simp add: unat_of_nat)
    have "is_prime (word_of_nat m) = 0" using sp(3)[OF n'(3)[OF m(1,3)] m(2,3)] .
    moreover have "2 \<le> unat (word_of_nat m :: u32)" using um m(1) assms(1) by simp
    ultimately show ?thesis using is_prime_correct[of "word_of_nat m"] um by (simp split: if_splits)
  qed
  ultimately show ?thesis by blast
qed

section \<open>Key generation when the totient fits an int\<close>

lemma check_gcd_ideal:
  assumes "1 < unat f" "unat f < 2147483648" "unat d < 2147483648"
  shows "\<exists>r. check_gcd d f = Inr r
           \<and> (if coprime (unat d) (unat f)
                then 0 < unat r \<and> unat r < unat f \<and> (unat r * unat d) mod unat f = 1
                else r = 0)"
proof -
  define F D where "F = int (unat f)" and "D = int (unat d)"
  have F: "1 < F" "F < 2147483648" "2 \<le> F" and D: "0 \<le> D" "D < 2147483648"
    using assms unfolding F_def D_def by linarith+
  have wf: "f = word_of_int F" and wd: "d = word_of_int D"
    unfolding F_def D_def by simp_all
  have "\<exists>r. check_gcd_loop f (1, 0, f) (0, 1, d) = Inr r
           \<and> (if gcd F D = 1 then 0 < uint r \<and> uint r < F \<and> (uint r * D) mod F = 1 else r = 0)"
  proof (rule check_gcd_loop_ideal[where ?X2.0 = 0 and ?Y2.0 = 1 and ?X3.0 = F and ?Y3.0 = D])
    show "\<exists>k. k * F + 0 * D = F" by (rule exI[of _ 1]) simp
    show "\<exists>k. k * F + 1 * D = D" by (rule exI[of _ 0]) simp
    show "f = word_of_int F" "f = word_of_int F" "d = word_of_int D" by (rule wf wd)+
  qed (use F D in simp_all)
  then obtain r where res: "check_gcd d f = Inr r"
    and main: "if gcd F D = 1 then 0 < uint r \<and> uint r < F \<and> (uint r * D) mod F = 1 else r = 0"
    unfolding check_gcd_def by blast
  have e1: "(gcd F D = 1) = coprime (unat d) (unat f)"
    unfolding F_def D_def by (simp only: gcd_int_int_eq coprime_iff_gcd_eq_1 gcd.commute[of "unat d"]) simp
  have ur: "uint r = int (unat r)" by simp
  have e2: "((uint r * D) mod F = 1) = ((unat r * unat d) mod unat f = 1)"
  proof -
    have "(uint r * D) mod F = int ((unat r * unat d) mod unat f)"
      unfolding F_def D_def ur by (simp only: zmod_int of_nat_mult)
    then show ?thesis by simp
  qed
  have e3: "(0 < uint r) = (0 < unat r)"
    unfolding ur by (simp only: of_nat_0_less_iff)
  have e4: "(uint r < F) = (unat r < unat f)"
    unfolding F_def ur by (simp only: of_nat_less_iff)
  from main have "if coprime (unat d) (unat f)
      then 0 < unat r \<and> unat r < unat f \<and> (unat r * unat d) mod unat f = 1 else r = 0"
    by (simp only: e1 e2 e3 e4)
  with res show ?thesis by blast
qed


lemma generate_keys_loop_spec:
  assumes "1 < unat f" "unat f < 2147483648" "unat e \<le> unat f"
  shows "\<exists>e' d'. generate_keys_loop f e d0 = Inr (e', d')
           \<and> unat e \<le> unat e' \<and> unat e' \<le> unat f
           \<and> (\<forall>x. unat e \<le> x \<and> x < unat e' \<longrightarrow> \<not> coprime x (unat f))
           \<and> (e' \<noteq> f \<longrightarrow> coprime (unat e') (unat f) \<and> 0 < unat d' \<and> unat d' < unat f
                  \<and> (unat e' * unat d') mod unat f = 1)"
  using assms
proof (induction f e d0 rule: generate_keys_loop.induct)
  case (1 f e d)
  show ?case
  proof (cases "e < f")
    case False
    then have "unat e = unat f" using "1.prems"(3) by (simp add: word_less_nat_alt)
    then have "e = f" by (simp add: word_unat_eq_iff)
    with False show ?thesis by (subst generate_keys_loop.simps) auto
  next
    case True
    then have lt: "unat e < unat f" by (simp add: word_less_nat_alt)
    then have e31: "unat e < 2147483648" using "1.prems"(2) by linarith
    from check_gcd_ideal[OF "1.prems"(1,2) e31]
    obtain r where res: "check_gcd e f = Inr r"
      and ideal: "if coprime (unat e) (unat f)
                  then 0 < unat r \<and> unat r < unat f \<and> (unat r * unat e) mod unat f = 1
                  else r = 0"
      by blast
    show ?thesis
    proof (cases "r = 0")
      case nz: False
      then have cop: "coprime (unat e) (unat f)" using ideal by (auto split: if_splits)
      with ideal have "0 < unat r" "unat r < unat f" "(unat r * unat e) mod unat f = 1" by simp_all
      moreover have "e \<noteq> f" using True by auto
      moreover have "generate_keys_loop f e d = Inr (e, r)"
        using True nz res by (subst generate_keys_loop.simps) simp
      ultimately show ?thesis using cop lt by (auto simp add: mult.commute)
    next
      case z: True
      then have ncop: "\<not> coprime (unat e) (unat f)" using ideal by (auto split: if_splits)
      have suc: "unat (e + 1) = Suc (unat e)" using lt by (rule unat_u32_Suc)
      then have le: "unat (e + 1) \<le> unat f" using lt by simp
      have unf: "generate_keys_loop f e d = generate_keys_loop f (e + 1) 0"
        using True z res by (subst generate_keys_loop.simps) simp
      from "1.IH"[OF True res _ "1.prems"(1,2) le] z
      obtain e' d' where r: "generate_keys_loop f (e + 1) 0 = Inr (e', d')"
        and ih: "unat (e + 1) \<le> unat e'" "unat e' \<le> unat f"
          "\<forall>x. unat (e + 1) \<le> x \<and> x < unat e' \<longrightarrow> \<not> coprime x (unat f)"
          "e' \<noteq> f \<longrightarrow> coprime (unat e') (unat f) \<and> 0 < unat d' \<and> unat d' < unat f
                  \<and> (unat e' * unat d') mod unat f = 1"
        by auto
      have "\<not> coprime x (unat f)" if "unat e \<le> x" "x < unat e'" for x
      proof (cases "x = unat e")
        case True
        then show ?thesis using ncop by simp
      next
        case False
        then have "unat (e + 1) \<le> x" using that(1) suc by simp
        then show ?thesis using ih(3) that(2) by simp
      qed
      then show ?thesis using ih suc unfolding unf r by simp
    qed
  qed
qed


lemma unat_pred: "1 \<le> unat (p::u32) \<Longrightarrow> unat (p - 1) = unat p - 1"
  by (simp add: unat_sub word_le_nat_alt)

lemma generate_keys_modulus:
  assumes "generate_keys p q = Inr (e, n, d)" "2 \<le> unat p" "2 \<le> unat q"
  shows "unat n = unat p * unat q" "n = p * q"
proof -
  have chk: "bitsize p + bitsize q \<le> 32" and n: "n = p * q"
    using assms(1) by (auto simp add: generate_keys_def Let_def split: if_splits prod.splits sum.splits)
  have "unat p < 2 ^ bitsize p" "unat q < 2 ^ bitsize q"
    using assms(2,3) bitlength_less[of "unat p"] bitlength_less[of "unat q"] by (simp_all add: bitsize_eq)
  then have "unat p * unat q < 2 ^ bitsize p * 2 ^ bitsize q"
    by (intro mult_strict_mono) simp_all
  also have "\<dots> = 2 ^ (bitsize p + bitsize q)" by (simp add: power_add)
  also have "\<dots> \<le> 2 ^ 32" using chk by (intro power_increasing) simp_all
  finally have "unat p * unat q < 2 ^ LENGTH(32)" by simp
  then show "unat n = unat p * unat q" unfolding n by (simp only: unat_mult_lem)
  show "n = p * q" by (rule n)
qed

lemma generate_keys_spec:
  assumes "generate_keys p q = Inr (e, n, d)" "2 \<le> unat p" "2 \<le> unat q"
    and "1 < (unat p - 1) * (unat q - 1)" "(unat p - 1) * (unat q - 1) < 2147483648"
  shows "2 \<le> unat e \<and> unat e < (unat p - 1) * (unat q - 1)
       \<and> coprime (unat e) ((unat p - 1) * (unat q - 1))
       \<and> (\<forall>x. 2 \<le> x \<and> x < unat e \<longrightarrow> \<not> coprime x ((unat p - 1) * (unat q - 1)))
       \<and> 0 < unat d \<and> unat d < (unat p - 1) * (unat q - 1)
       \<and> (unat e * unat d) mod ((unat p - 1) * (unat q - 1)) = 1"
proof -
  define f where "f = (p - 1) * (q - 1)"
  have "unat (p - 1) * unat (q - 1) < 2 ^ LENGTH(32)"
    using assms(2,3,5) by (simp add: unat_pred)
  then have uf: "unat f = (unat p - 1) * (unat q - 1)"
    unfolding f_def using assms(2,3) by (simp only: unat_mult_lem) (simp add: unat_pred)
  have "unat (2::u32) \<le> unat f" using assms(4) uf by simp
  from generate_keys_loop_spec[of f 2 0, OF _ _ this] assms(4,5) uf
  obtain e' d' where loop: "generate_keys_loop f 2 0 = Inr (e', d')"
    and sp: "unat (2::u32) \<le> unat e'" "unat e' \<le> unat f"
      "\<forall>x. unat (2::u32) \<le> x \<and> x < unat e' \<longrightarrow> \<not> coprime x (unat f)"
      "e' \<noteq> f \<longrightarrow> coprime (unat e') (unat f) \<and> 0 < unat d' \<and> unat d' < unat f
                  \<and> (unat e' * unat d') mod unat f = 1"
    by auto
  have res: "e' \<noteq> f" "e = e'" "d = d'"
    using assms(1) loop by (auto simp add: generate_keys_def Let_def f_def split: if_splits)
  from sp res(1)
  have "unat (2::u32) \<le> unat e'" "unat e' \<le> unat f"
    "\<forall>x. unat (2::u32) \<le> x \<and> x < unat e' \<longrightarrow> \<not> coprime x (unat f)"
    "coprime (unat e') (unat f)" "0 < unat d'" "unat d' < unat f" "(unat e' * unat d') mod unat f = 1"
    by simp_all
  moreover have "unat e' \<noteq> unat f" using res(1) by (simp add: word_unat_eq_iff)
  ultimately show ?thesis unfolding res uf by simp
qed

section \<open>check_gcd and find_inverse where nothing overflows\<close>

text \<open>
  When \<open>d\<close> and \<open>f\<close> are below \<open>2^31\<close> and the largest product \<open>(f - 1) * d\<close> that
  \<open>find_inverse\<close> can form is below \<open>2^32\<close>, the two functions return the same value.
\<close>

lemma inverse_unique:
  fixes a b d f :: nat
  assumes "a < f" "b < f" "a * d mod f = 1" "b * d mod f = 1"
  shows "a = b"
proof -
  have "a = a * (b * d mod f) mod f" using assms(1,4) by simp
  also have "\<dots> = a * (b * d) mod f" by (rule mod_mult_right_eq)
  also have "\<dots> = b * (a * d) mod f" by (simp add: mult.left_commute)
  also have "\<dots> = b * (a * d mod f) mod f" by (rule mod_mult_right_eq[symmetric])
  also have "\<dots> = b" using assms(2,3) by simp
  finally show ?thesis .
qed

lemma inverse_coprime:
  fixes a d f :: nat
  assumes "a * d mod f = 1"
  shows "coprime d f"
proof -
  have "gcd d f dvd a * d" by simp
  moreover have "gcd d f dvd f" by simp
  ultimately have "gcd d f dvd a * d mod f" by (rule dvd_mod)
  then have "gcd d f = 1" using assms by simp
  then show ?thesis by (simp add: coprime_iff_gcd_eq_1)
qed



lemma find_inverse_step:
  fixes i d f :: u32
  assumes lt: "unat i < unat f" and b: "(unat f - 1) * unat d < 4294967296"
  shows "((i * d) mod f = 1) = (unat i * unat d mod unat f = 1)"
proof -
  from lt have "unat i \<le> unat f - 1" by simp
  then have "unat i * unat d \<le> (unat f - 1) * unat d" by (rule mult_le_mono1)
  from this b have "unat i * unat d < 4294967296" by (rule le_less_trans)
  then have "unat i * unat d < 2 ^ LENGTH(32)" by simp
  then have "unat (i * d) = unat i * unat d" by (simp only: unat_mult_lem)
  then have m: "unat ((i * d) mod f) = unat i * unat d mod unat f" by (simp only: unat_mod)
  have "((i * d) mod f = 1) = (unat ((i * d) mod f) = unat (1 :: u32))"
    by (simp only: word_unat_eq_iff)
  also have "\<dots> = (unat i * unat d mod unat f = 1)" unfolding m by simp
  finally show ?thesis .
qed


lemma find_inverse_loop_spec:
  assumes "(unat f - 1) * unat d < 4294967296"
  shows "(find_inverse_loop d f i = 0 \<and> (\<forall>j. unat i \<le> j \<and> j < unat f \<longrightarrow> j * unat d mod unat f \<noteq> 1))
       \<or> (unat i \<le> unat (find_inverse_loop d f i) \<and> unat (find_inverse_loop d f i) < unat f
          \<and> unat (find_inverse_loop d f i) * unat d mod unat f = 1)"
  using assms
proof (induction d f i rule: find_inverse_loop.induct)
  case (1 d f i)
  show ?case
  proof (cases "i < f")
    case False
    then have "unat f \<le> unat i" by (simp add: word_less_nat_alt)
    moreover have "find_inverse_loop d f i = 0"
      using False by (simp add: find_inverse_loop.simps[of d f i])
    ultimately show ?thesis by auto
  next
    case True
    then have lt: "unat i < unat f" by (simp add: word_less_nat_alt)
    note t = find_inverse_step[OF lt "1.prems"]
    show ?thesis
    proof (cases "(i * d) mod f = 1")
      case found: True
      then have "find_inverse_loop d f i = i" using True by (simp add: find_inverse_loop.simps[of d f i])
      moreover have "unat i * unat d mod unat f = 1" using found t by blast
      ultimately show ?thesis using lt by simp
    next
      case nf: False
      have e: "find_inverse_loop d f i = find_inverse_loop d f (i + 1)"
        using True nf by (simp add: find_inverse_loop.simps[of d f i])
      have u: "unat (i + 1) = Suc (unat i)" using lt by (rule unat_u32_Suc)
      have ni: "unat i * unat d mod unat f \<noteq> 1" using nf t by blast
      from "1.IH"[OF True nf "1.prems"] show ?thesis
      proof
        assume a: "find_inverse_loop d f (i + 1) = 0 \<and>
          (\<forall>j. unat (i + 1) \<le> j \<and> j < unat f \<longrightarrow> j * unat d mod unat f \<noteq> 1)"
        have "j * unat d mod unat f \<noteq> 1" if "unat i \<le> j" "j < unat f" for j
        proof (cases "j = unat i")
          case True
          then show ?thesis using ni by blast
        next
          case False
          then have "unat (i + 1) \<le> j" using that(1) u by simp
          then show ?thesis using a that(2) by blast
        qed
        then show ?thesis using a e by metis
      next
        assume b: "unat (i + 1) \<le> unat (find_inverse_loop d f (i + 1)) \<and>
          unat (find_inverse_loop d f (i + 1)) < unat f \<and>
          unat (find_inverse_loop d f (i + 1)) * unat d mod unat f = 1"
        then have "unat i \<le> unat (find_inverse_loop d f (i + 1))" using u by simp
        then show ?thesis using b unfolding e by blast
      qed
    qed
  qed
qed


lemma find_inverse_spec:
  assumes "(unat f - 1) * unat d < 4294967296"
  shows "(find_inverse d f = 0 \<and> (\<forall>j. 1 \<le> j \<and> j < unat f \<longrightarrow> j * unat d mod unat f \<noteq> 1))
       \<or> (1 \<le> unat (find_inverse d f) \<and> unat (find_inverse d f) < unat f
          \<and> unat (find_inverse d f) * unat d mod unat f = 1)"
proof -
  have "unat (1 :: u32) = 1" by simp
  with find_inverse_loop_spec[OF assms, of 1] show ?thesis
    unfolding find_inverse_def by metis
qed

lemma check_gcd_find_inverse:
  assumes "1 < unat f" "unat f < 2147483648" "unat d < 2147483648"
    and "(unat f - 1) * unat d < 4294967296"
  shows "check_gcd d f = Inr (find_inverse d f)"
proof -
  from check_gcd_ideal[OF assms(1-3)]
  obtain r where res: "check_gcd d f = Inr r"
    and ideal: "if coprime (unat d) (unat f)
                then 0 < unat r \<and> unat r < unat f \<and> (unat r * unat d) mod unat f = 1
                else r = 0"
    by blast
  have "r = find_inverse d f"
  proof (cases "coprime (unat d) (unat f)")
    case True
    with ideal have x: "1 \<le> unat r" "unat r < unat f" "unat r * unat d mod unat f = 1" by simp_all
    from find_inverse_spec[OF assms(4)] x
    have y: "unat (find_inverse d f) < unat f" "unat (find_inverse d f) * unat d mod unat f = 1"
      by blast+
    have "unat r = unat (find_inverse d f)"
      by (rule inverse_unique[OF x(2) y(1) x(3) y(2)])
    then show ?thesis by (simp only: word_unat_eq_iff)
  next
    case False
    with ideal have c: "r = 0" by simp
    have "find_inverse d f = 0"
      using find_inverse_spec[OF assms(4)] inverse_coprime[of _ "unat d" "unat f"] False by blast
    with c show ?thesis by simp
  qed
  with res show ?thesis by simp
qed

section \<open>The drivers, block by block\<close>

lemma unat_srcbits: "1 \<le> bitsize n \<Longrightarrow> unat ((word_of_nat (bitsize n) :: u32) - 1) = bitsize n - 1"
proof -
  assume a: "1 \<le> bitsize n"
  then have "1 \<le> unat (word_of_nat (bitsize n) :: u32)" by (simp only: unat_bitsize)
  then have "unat ((word_of_nat (bitsize n) :: u32) - 1) = unat (word_of_nat (bitsize n) :: u32) - 1"
    by (rule unat_pred)
  then show ?thesis by (simp only: unat_bitsize)
qed

lemma blocks_bound:
  fixes j s L :: nat
  assumes "0 < s" "j * s < 8 * L"
  shows "j < 8 * (L div s) + 8"
proof -
  have "L < s * (L div s + 1)" using assms(1) by (simp add: dividend_less_times_div)
  then have "8 * L < 8 * (s * (L div s + 1))" by simp
  also have "\<dots> = (8 * (L div s) + 8) * s" by (simp add: algebra_simps)
  finally have "j * s < (8 * (L div s) + 8) * s" using assms(2) by linarith
  then show ?thesis by simp
qed

lemma field_lt: "n \<le> 32 \<Longrightarrow> unat (field mem k n) < 2 ^ n"
proof -
  assume "n \<le> 32"
  have "take_bit n (field mem k n) = field mem k n"
    by (rule bit_eqI) (auto simp add: bit_take_bit_iff bit_field)
  then show ?thesis by (metis unsigned_take_bit_eq take_bit_nat_less_exp)
qed

lemma field_cong:
  assumes "\<And>j. j < n \<Longrightarrow> getbit mem (k + j) = getbit mem' (k' + j)"
  shows "field mem k n = field mem' k' n"
  by (rule bit_eqI) (auto simp add: bit_field assms)

lemma field_written:
  assumes "n \<le> 32" "unat c < 2 ^ n" "\<And>j. j < n \<Longrightarrow> getbit mem (k + j) = bit c j"
  shows "field mem k n = c"
proof (rule bit_eqI)
  fix j
  have "\<not> bit c j" if "n \<le> j"
  proof -
    have "unat c < 2 ^ j" using assms(2) that
      by (meson le_trans less_le_not_le linorder_not_less one_le_numeral power_increasing)
    then have "take_bit j c = c" by (metis take_bit_nat_eq_self unsigned_take_bit_eq word_unat_eq_iff)
    then show ?thesis by (metis bit_take_bit_iff less_irrefl)
  qed
  then show "bit (field mem k n) j = bit c j"
    using assms(1,3) by (cases "j < n") (auto simp add: bit_field dest: bit_imp_le_length)
qed


lemma cursor_at_fst: "fst (cursor_at k) = k div 8"
  by (simp add: cursor_at_def)

lemma encrypt_loop_spec:
  fixes e n :: u32 and buf :: "u8 list" and L :: nat
  defines "w \<equiv> bitsize n" and "s \<equiv> bitsize n - 1"
  assumes "2 \<le> bitsize n"
    and "length buf = L + 8"
    and "8 * L + 8 * (L div s) + 64 \<le> 8 * length dest"
    and "j * s < 8 * L + s"
    and "\<And>i. j * w \<le> i \<Longrightarrow> i < 8 * length dest \<Longrightarrow> \<not> getbit dest i"
  shows "\<exists>dest' k. encrypt_loop e n buf L (cursor_at (j * s)) dest (cursor_at (j * w))
                   = Inr (dest', cursor_at (k * w))
          \<and> j \<le> k \<and> 8 * L \<le> k * s \<and> k * s < 8 * L + s \<and> length dest' = length dest
          \<and> (\<forall>i<j * w. getbit dest' i = getbit dest i)
          \<and> (\<forall>b. j \<le> b \<and> b < k \<longrightarrow> field dest' (b * w) w = cblock e n buf b)"
  using assms(3-)
proof (induction "8 * L + s - j * s" arbitrary: j dest rule: less_induct)
  case less
  note p = less.prems
  have w32: "w \<le> 32" unfolding w_def by (rule bitsize_le_32)
  have ws: "w = s + 1" "1 \<le> s" "s \<le> 31" using p(1) w32 unfolding w_def s_def by simp_all
  have n0: "n \<noteq> 0"
  proof
    assume "n = 0"
    then have "bitsize n = 0" by (simp add: bitsize_eq)
    with p(1) show False by simp
  qed
  have uw: "unat (word_of_nat (bitsize n) :: u32) = w" unfolding w_def by (rule unat_bitsize)
  have us: "unat ((word_of_nat (bitsize n) :: u32) - 1) = s"
    unfolding s_def using p(1) by (intro unat_srcbits) simp
  note unf = encrypt_loop.simps[of e n buf L "cursor_at (j * s)" dest "cursor_at (j * w)"]
  show ?case
  proof (cases "j * s < 8 * L")
    case False
    then have "\<not> fst (cursor_at (j * s)) < L" by (simp add: cursor_at_fst)
    then have "encrypt_loop e n buf L (cursor_at (j * s)) dest (cursor_at (j * w)) = Inr (dest, cursor_at (j * w))"
      by (simp add: unf)
    then show ?thesis using False p(4) by (intro exI[of _ dest] exI[of _ j]) auto
  next
    case True
    then have cont: "fst (cursor_at (j * s)) < L" by (simp add: cursor_at_fst div_less_iff_less_mult)
    have rd_room: "j * s + unat ((word_of_nat (bitsize n) :: u32) - 1) \<le> 8 * length buf"
      using True ws p(2) by (simp add: us)
    have rd: "readbits buf (cursor_at (j * s)) (word_of_nat (bitsize n) - 1)
        = Inr (field buf (j * s) s, cursor_at (j * s + s))"
      using readbits_spec[OF rd_room] ws by (simp add: us)
    have ab: "ab_mod_n (field buf (j * s) s) e n = Inr (cblock e n buf j)"
      unfolding cblock_def s_def[symmetric] by (rule ab_mod_n_value[OF n0])
    have s0: "0 < s" using ws(2) by simp
    have jb: "j < 8 * (L div s) + 8" by (rule blocks_bound[OF s0 True])
    have jw: "j * w = j * s + j" unfolding ws(1) by simp
    have wr_room: "j * w + unat (word_of_nat (bitsize n) :: u32) \<le> 8 * length dest"
      using True jb ws p(3) by (simp add: uw jw)
    from writebits_spec[OF wr_room, of "cblock e n buf j"] w32
    obtain dest1 where wr: "writebits dest (cursor_at (j * w)) (word_of_nat (bitsize n)) (cblock e n buf j)
          = Inr (dest1, cursor_at (j * w + w))"
      and len1: "length dest1 = length dest"
      and bits1: "\<And>i. getbit dest1 i = (getbit dest i \<or> (j * w \<le> i \<and> i < j * w + w \<and> bit (cblock e n buf j) (i - j * w)))"
      by (auto simp add: uw)
    have step: "encrypt_loop e n buf L (cursor_at (j * s)) dest (cursor_at (j * w))
        = encrypt_loop e n buf L (cursor_at (Suc j * s)) dest1 (cursor_at (Suc j * w))"
      using cont by (simp add: unf rd ab wr add.commute)
    have "\<exists>dest' k. encrypt_loop e n buf L (cursor_at (Suc j * s)) dest1 (cursor_at (Suc j * w))
                   = Inr (dest', cursor_at (k * w))
          \<and> Suc j \<le> k \<and> 8 * L \<le> k * s \<and> k * s < 8 * L + s \<and> length dest' = length dest1
          \<and> (\<forall>i<Suc j * w. getbit dest' i = getbit dest1 i)
          \<and> (\<forall>b. Suc j \<le> b \<and> b < k \<longrightarrow> field dest' (b * w) w = cblock e n buf b)"
    proof (rule less.hyps)
      show "8 * L + s - Suc j * s < 8 * L + s - j * s" using True ws(2) by simp
      show "2 \<le> bitsize n" by (rule p(1))
      show "length buf = L + 8" by (rule p(2))
      show "8 * L + 8 * (L div s) + 64 \<le> 8 * length dest1" using p(3) len1 by simp
      show "Suc j * s < 8 * L + s" using True by simp
      show "\<not> getbit dest1 i" if "Suc j * w \<le> i" "i < 8 * length dest1" for i
        using that p(5)[of i] len1 by (simp add: bits1)
    qed
    then obtain dest' k where r: "encrypt_loop e n buf L (cursor_at (Suc j * s)) dest1 (cursor_at (Suc j * w))
                   = Inr (dest', cursor_at (k * w))"
      and k: "Suc j \<le> k" "8 * L \<le> k * s" "k * s < 8 * L + s"
      and len': "length dest' = length dest1"
      and frame: "\<And>i. i < Suc j * w \<Longrightarrow> getbit dest' i = getbit dest1 i"
      and blocks: "\<And>b. Suc j \<le> b \<Longrightarrow> b < k \<Longrightarrow> field dest' (b * w) w = cblock e n buf b"
      by blast
    have clt: "unat (cblock e n buf j) < 2 ^ w"
    proof -
      have "0 < unat n" using n0 by (simp add: unat_gt_0)
      then have "unat (field buf (j * s) s) ^ unat e mod unat n < unat n" by simp
      moreover have "unat n < 2 ^ w"
        using bitlength_less[of "unat n"] p(1) unfolding w_def by (simp add: bitsize_eq split: if_splits)
      ultimately have lt: "unat (field buf (j * s) s) ^ unat e mod unat n < 2 ^ w" by linarith
      moreover have "(2::nat) ^ w \<le> 2 ^ 32" using w32 by (intro power_increasing) simp_all
      ultimately have "unat (field buf (j * s) s) ^ unat e mod unat n < 2 ^ LENGTH(32)" by simp
      then have "unat (cblock e n buf j) = unat (field buf (j * s) s) ^ unat e mod unat n"
        unfolding cblock_def s_def[symmetric] by (simp add: unat_of_nat)
      with lt show ?thesis by simp
    qed
    have blockj: "field dest' (j * w) w = cblock e n buf j"
    proof (rule field_written[OF w32 clt])
      fix i assume i: "i < w"
      then have "j * w + i < 8 * length dest" using wr_room by (simp add: uw)
      then have "\<not> getbit dest (j * w + i)" using p(5)[of "j * w + i"] by simp
      moreover have "j * w + i < Suc j * w" using i by simp
      ultimately show "getbit dest' (j * w + i) = bit (cblock e n buf j) i"
        using i by (simp add: frame bits1)
    qed
    have "field dest' (b * w) w = cblock e n buf b" if "j \<le> b" "b < k" for b
      using that blockj blocks[of b] by (cases "b = j") simp_all
    moreover have "getbit dest' i = getbit dest i" if "i < j * w" for i
      using that frame[of i] by (simp add: bits1)
    ultimately show ?thesis
      using r k len' len1 unfolding step
      by (intro exI[of _ dest'] exI[of _ k]) simp
  qed
qed

lemma blocks_ahead:
  fixes j k s :: nat
  assumes "0 < s" "j * s < k * s + 8"
  shows "j < k + 8"
proof (rule ccontr)
  assume "\<not> j < k + 8"
  then have "k + 8 \<le> j" by simp
  then have "(k + 8) * s \<le> j * s" by (rule mult_le_mono1)
  moreover have "k * s + 8 \<le> (k + 8) * s" using assms(1) by (simp add: algebra_simps)
  ultimately show False using assms(2) by linarith
qed

lemma decrypt_loop_spec:
  fixes d n :: u32 and src plain :: "u8 list" and L k :: nat
  defines "w \<equiv> bitsize n" and "s \<equiv> bitsize n - 1"
  assumes "2 \<le> bitsize n"
    and "k * w + 64 \<le> 8 * length src"
    and "8 * L \<le> k * s"
    and "\<And>b. b < k \<Longrightarrow> ab_mod_n (field src (b * w) w) d n = Inr (field plain (b * s) s)"
    and "length dst = L + 8"
    and "j * s < 8 * L + 8 + s"
    and "\<And>i. j * s \<le> i \<Longrightarrow> i < 8 * length dst \<Longrightarrow> \<not> getbit dst i"
  shows "\<exists>dst' cur. decrypt_loop d n src (cursor_at (j * w)) dst (cursor_at (j * s)) L = Inr (dst', cur)
          \<and> length dst' = length dst
          \<and> (\<forall>i<j * s. getbit dst' i = getbit dst i)
          \<and> (\<forall>i. j * s \<le> i \<and> i < 8 * L \<longrightarrow> getbit dst' i = getbit plain i)"
  using assms(3-)
proof (induction "8 * L + 8 + s - j * s" arbitrary: j dst rule: less_induct)
  case less
  note p = less.prems
  have w32: "w \<le> 32" unfolding w_def by (rule bitsize_le_32)
  have ws: "w = s + 1" "1 \<le> s" "s \<le> 31" using p(1) w32 unfolding w_def s_def by simp_all
  have n0: "n \<noteq> 0"
  proof
    assume "n = 0"
    then have "bitsize n = 0" by (simp add: bitsize_eq)
    with p(1) show False by simp
  qed
  have uw: "unat (word_of_nat (bitsize n) :: u32) = w" unfolding w_def by (rule unat_bitsize)
  have us: "unat ((word_of_nat (bitsize n) :: u32) - 1) = s"
    unfolding s_def using p(1) by (intro unat_srcbits) simp
  note unf = decrypt_loop.simps[of d n src "cursor_at (j * w)" dst "cursor_at (j * s)" L]
  show ?case
  proof (cases "j * s < 8 * L + 8")
    case False
    then have "\<not> fst (cursor_at (j * s)) \<le> L" by (simp add: cursor_at_fst)
    then have "decrypt_loop d n src (cursor_at (j * w)) dst (cursor_at (j * s)) L = Inr (dst, cursor_at (j * s))"
      by (simp add: unf)
    then show ?thesis using False by (intro exI[of _ dst] exI[of _ "cursor_at (j * s)"]) auto
  next
    case True
    then have cont: "fst (cursor_at (j * s)) \<le> L" by (simp add: cursor_at_fst) 
    have s0: "0 < s" using ws(2) by simp
    have "j * s < k * s + 8" using True p(3) by linarith
    then have jk: "j < k + 8" by (rule blocks_ahead[OF s0])
    have jw: "j * w = j * s + j" "k * w = k * s + k" unfolding ws(1) by simp_all
    have rd_room: "j * w + unat (word_of_nat (bitsize n) :: u32) \<le> 8 * length src"
      using True jk p(2,3) ws by (simp add: uw jw)
    have rd: "readbits src (cursor_at (j * w)) (word_of_nat (bitsize n))
        = Inr (field src (j * w) w, cursor_at (j * w + w))"
      using readbits_spec[OF rd_room] w32 by (simp add: uw)
    obtain c where ab: "ab_mod_n (field src (j * w) w) d n = Inr c"
      using ab_mod_n_value[OF n0] by blast
    have wr_room: "j * s + unat ((word_of_nat (bitsize n) :: u32) - 1) \<le> 8 * length dst"
      using True ws p(5) by (simp add: us)
    from writebits_spec[OF wr_room, of c] ws
    obtain dst1 where wr: "writebits dst (cursor_at (j * s)) (word_of_nat (bitsize n) - 1) c
          = Inr (dst1, cursor_at (j * s + s))"
      and len1: "length dst1 = length dst"
      and bits1: "\<And>i. getbit dst1 i = (getbit dst i \<or> (j * s \<le> i \<and> i < j * s + s \<and> bit c (i - j * s)))"
      by (auto simp add: us)
    have step: "decrypt_loop d n src (cursor_at (j * w)) dst (cursor_at (j * s)) L
        = decrypt_loop d n src (cursor_at (Suc j * w)) dst1 (cursor_at (Suc j * s)) L"
      using cont by (simp add: unf rd ab wr add.commute)
    have "\<exists>dst' cur. decrypt_loop d n src (cursor_at (Suc j * w)) dst1 (cursor_at (Suc j * s)) L = Inr (dst', cur)
          \<and> length dst' = length dst1
          \<and> (\<forall>i<Suc j * s. getbit dst' i = getbit dst1 i)
          \<and> (\<forall>i. Suc j * s \<le> i \<and> i < 8 * L \<longrightarrow> getbit dst' i = getbit plain i)"
    proof (rule less.hyps)
      show "8 * L + 8 + s - Suc j * s < 8 * L + 8 + s - j * s" using True ws(2) by simp
      show "2 \<le> bitsize n" by (rule p(1))
      show "k * w + 64 \<le> 8 * length src" by (rule p(2))
      show "8 * L \<le> k * s" by (rule p(3))
      show "ab_mod_n (field src (b * w) w) d n = Inr (field plain (b * s) s)" if "b < k" for b
        using that by (rule p(4))
      show "length dst1 = L + 8" using p(5) len1 by simp
      show "Suc j * s < 8 * L + 8 + s" using True by simp
      show "\<not> getbit dst1 i" if "Suc j * s \<le> i" "i < 8 * length dst1" for i
        using that p(7)[of i] len1 by (simp add: bits1)
    qed
    then obtain dst' cur where r: "decrypt_loop d n src (cursor_at (Suc j * w)) dst1 (cursor_at (Suc j * s)) L = Inr (dst', cur)"
      and len': "length dst' = length dst1"
      and frame: "\<And>i. i < Suc j * s \<Longrightarrow> getbit dst' i = getbit dst1 i"
      and rest: "\<And>i. Suc j * s \<le> i \<Longrightarrow> i < 8 * L \<Longrightarrow> getbit dst' i = getbit plain i"
      by blast
    have "getbit dst' i = getbit plain i" if i: "j * s \<le> i" "i < 8 * L" for i
    proof (cases "i < Suc j * s")
      case False
      then show ?thesis using rest[of i] i(2) by simp
    next
      case inblock: True
      have "j * s < k * s" using i p(3) by linarith
      then have "j < k" by simp
      then have c: "c = field plain (j * s) s" using p(4)[of j] ab by simp
      have "i < 8 * length dst" using i(2) p(5) by simp
      then have "\<not> getbit dst i" using p(7)[of i] i(1) by simp
      then have "getbit dst' i = bit c (i - j * s)"
        using inblock i(1) by (simp add: frame bits1)
      also have "\<dots> = getbit plain (j * s + (i - j * s))"
      proof -
        have "i - j * s < s" "i - j * s < 32" using inblock i(1) ws(3) by simp_all
        then show ?thesis unfolding c by (simp only: bit_field) simp
      qed
      finally show ?thesis using i(1) by simp
    qed
    moreover have "getbit dst' i = getbit dst i" if "i < j * s" for i
      using that frame[of i] by (simp add: bits1)
    ultimately show ?thesis
      using r len' len1 unfolding step
      by (intro exI[of _ dst'] exI[of _ cur]) simp
  qed
qed

section \<open>Files, headers and blocks of memory\<close>

lemma length_malloc: "length (malloc junk sz) = sz"
  by (simp add: malloc_def)

lemma malloc_zero: "malloc (\<lambda>_. 0) sz = replicate sz 0"
  by (simp add: malloc_def map_replicate_const)

lemma read_file_append: "\<exists>slack. read_file junk file = file @ slack \<and> length slack = 8"
  by (simp add: read_file_def length_malloc)

lemma length_off_t_bytes: "length (off_t_bytes w) = 8"
  by (simp add: off_t_bytes_def)

lemma upt_shift: "[k..<k + Suc m] = k # [Suc k..<Suc k + m]"
  by (simp add: upt_rec)

lemma bit_le_bytes:
  "bit (le_value (map (\<lambda>i. ucast (drop_bit (8 * i) w) :: u8) [k..<k + m])) j
   = (j < 8 * m \<and> bit (w::u64) (8 * k + j))"
proof (induction m arbitrary: k j)
  case 0
  then show ?case by simp
next
  case (Suc m)
  define rest where "rest = le_value (map (\<lambda>i. ucast (drop_bit (8 * i) w) :: u8) [Suc k..<Suc k + m])"
  have rest: "bit rest i = (i < 8 * m \<and> bit w (8 * Suc k + i))" for i
    unfolding rest_def by (rule Suc.IH)
  have unf: "le_value (map (\<lambda>i. ucast (drop_bit (8 * i) w) :: u8) [k..<k + Suc m])
      = ucast (ucast (drop_bit (8 * k) w) :: u8) OR push_bit 8 rest"
    unfolding rest_def by (simp only: upt_shift list.map le_value.simps)
  have b0: "bit (ucast (ucast (drop_bit (8 * k) w) :: u8) :: u64) j = (j < 8 \<and> bit w (8 * k + j))"
    by (auto simp add: bit_simps dest: bit_imp_le_length)
  have b1: "bit (push_bit 8 rest) j = (8 \<le> j \<and> j < 8 * Suc m \<and> bit w (8 * k + j))"
  proof (cases "8 \<le> j")
    case True
    then have "8 * Suc k + (j - 8) = 8 * k + j" by simp
    then show ?thesis using True
      by (auto simp add: bit_push_bit_iff rest dest: bit_imp_le_length)
  next
    case False
    then show ?thesis by (simp add: bit_push_bit_iff)
  qed
  show ?case unfolding unf by (auto simp add: bit_or_iff b0 b1)
qed

lemma off_t_roundtrip: "off_t_value (off_t_bytes w @ rest) = w"
proof -
  have "off_t_value (off_t_bytes w @ rest) = le_value (off_t_bytes w)"
    by (simp add: off_t_value_def length_off_t_bytes)
  also have "\<dots> = w"
  proof (rule bit_eqI)
    fix j
    have "bit (le_value (map (\<lambda>i. ucast (drop_bit (8 * i) w) :: u8) [0..<0 + 8])) j
        = (j < 8 * 8 \<and> bit w (8 * 0 + j))" by (rule bit_le_bytes)
    then show "bit (le_value (off_t_bytes w)) j = bit w j"
      unfolding off_t_bytes_def by (auto dest: bit_imp_le_length)
  qed
  finally show ?thesis .
qed

lemma getbit_append: "i < 8 * length xs \<Longrightarrow> getbit (xs @ ys) i = getbit xs i"
  by (simp add: getbit_def nth_append div_less_iff_less_mult mult.commute)

lemma getbit_take: "i < 8 * m \<Longrightarrow> getbit (take m xs) i = getbit xs i"
  by (simp add: getbit_def div_less_iff_less_mult mult.commute)

lemma bytes_eqI:
  assumes "length xs = length ys" "\<And>i. i < 8 * length xs \<Longrightarrow> getbit xs i = getbit ys i"
  shows "xs = ys"
proof (rule nth_equalityI[OF assms(1)])
  fix a assume a: "a < length xs"
  show "xs ! a = ys ! a"
  proof (rule bit_eqI)
    fix m
    show "bit (xs ! a) m = bit (ys ! a) m"
    proof (cases "m < 8")
      case True
      then have "8 * a + m < 8 * length xs" using a by simp
      from assms(2)[OF this] True show ?thesis by (simp add: getbit_def)
    next
      case False
      then show ?thesis by (auto dest: bit_imp_le_length)
    qed
  qed
qed

lemma extraspace_value:
  fixes n :: u32
  assumes "2 \<le> bitsize n" "L < 2147483648"
  shows "unat (ucast (8 + long_div (word_of_nat L) (ucast ((word_of_nat (bitsize n) :: u32) - 1))) :: u32)
       = 8 + L div (bitsize n - 1)"
proof -
  define s where "s = bitsize n - 1"
  have us: "unat ((word_of_nat (bitsize n) :: u32) - 1) = s"
    unfolding s_def using assms(1) by (intro unat_srcbits) simp
  then have ius: "uint ((word_of_nat (bitsize n) :: u32) - 1) = int s"
    by (metis uint_nat)
  have sL: "sint (word_of_nat L :: u64) = int L"
    using assms(2) sint_of_int_64[of "int L"] by simp
  have "long_div (word_of_nat L) (ucast ((word_of_nat (bitsize n) :: u32) - 1)) = word_of_int (int L sdiv int s)"
    by (simp only: long_div_def sL sint_ucast_u32_u64 ius)
  also have "int L sdiv int s = int (L div s)"
    by (simp add: sdiv_nonneg zdiv_int)
  finally have "(8 + long_div (word_of_nat L) (ucast ((word_of_nat (bitsize n) :: u32) - 1)) :: u64)
      = word_of_int (int (8 + L div s))" by simp
  then have "(ucast (8 + long_div (word_of_nat L) (ucast ((word_of_nat (bitsize n) :: u32) - 1))) :: u32)
      = word_of_nat (8 + L div s)"
    by (simp only: ucast_of_int_64_32) simp
  moreover have "8 + L div s < 2 ^ LENGTH(32)"
  proof -
    have "L div s \<le> L" by simp
    then have "8 + L div s < 4294967296" using assms(2) by linarith
    then show ?thesis by simp
  qed
  ultimately show ?thesis unfolding s_def[symmetric] by (simp only: unat_of_nat) simp
qed

lemma encrypt_file_spec:
  fixes e n :: u32 and B :: "u8 list"
  defines "w \<equiv> bitsize n" and "s \<equiv> bitsize n - 1"
  assumes "2 \<le> bitsize n" "length B < 2147483648"
  shows "\<exists>dest k. encrypt_file junk (\<lambda>_. 0) B e n
             = Inr (off_t_bytes (word_of_nat (length B)) @ take (k * w div 8 + 1) dest)
          \<and> 8 * length B \<le> k * s \<and> k * s < 8 * length B + s
          \<and> k * w div 8 + 1 \<le> length dest
          \<and> k * w div 8 \<le> length B + length B div s + 4
          \<and> (\<forall>b<k. field dest (b * w) w = cblock e n (read_file junk B) b)"
proof -
  define L where "L = length B"
  define dest0 where "dest0 = replicate (L + (8 + L div s)) (0::u8)"
  have w32: "w \<le> 32" unfolding w_def by (rule bitsize_le_32)
  have ws: "w = s + 1" "1 \<le> s" "s \<le> 31" using assms(3) w32 unfolding w_def s_def by simp_all
  have s0: "0 < s" using ws(2) by simp
  have lenbuf: "length (read_file junk B) = L + 8"
    using read_file_append[of junk B] unfolding L_def by auto
  have c0: "cursor_at 0 = (0, 0)" by (simp add: cursor_at_def)
  have "\<exists>dest' k. encrypt_loop e n (read_file junk B) L (cursor_at (0 * s)) dest0 (cursor_at (0 * w))
                   = Inr (dest', cursor_at (k * w))
          \<and> 0 \<le> k \<and> 8 * L \<le> k * s \<and> k * s < 8 * L + s \<and> length dest' = length dest0
          \<and> (\<forall>i<0 * w. getbit dest' i = getbit dest0 i)
          \<and> (\<forall>b. 0 \<le> b \<and> b < k \<longrightarrow> field dest' (b * w) w = cblock e n (read_file junk B) b)"
    unfolding w_def s_def
  proof (rule encrypt_loop_spec)
    show "2 \<le> bitsize n" by (rule assms(3))
    show "length (read_file junk B) = L + 8" by (rule lenbuf)
    show "8 * L + 8 * (L div (bitsize n - 1)) + 64 \<le> 8 * length dest0"
      unfolding dest0_def s_def by simp
    show "0 * (bitsize n - 1) < 8 * L + (bitsize n - 1)" using s0 unfolding s_def by simp
    show "\<not> getbit dest0 i" if "i < 8 * length dest0" for i
      using that unfolding dest0_def by (simp add: getbit_replicate_0)
  qed
  then obtain dest k where loop: "encrypt_loop e n (read_file junk B) L (0, 0) dest0 (0, 0) = Inr (dest, cursor_at (k * w))"
    and k: "8 * L \<le> k * s" "k * s < 8 * L + s"
    and len: "length dest = L + (8 + L div s)"
    and blocks: "\<And>b. b < k \<Longrightarrow> field dest (b * w) w = cblock e n (read_file junk B) b"
    unfolding dest0_def by (auto simp add: c0)
  have kb: "k \<le> 8 * (L div s) + 8"
  proof (cases k)
    case 0
    then show ?thesis by simp
  next
    case (Suc k')
    then have "k' * s < 8 * L" using k(2) by simp
    then have "k' < 8 * (L div s) + 8" by (rule blocks_bound[OF s0])
    then show ?thesis using Suc by simp
  qed
  have kw: "k * w = k * s + k" unfolding ws(1) by simp
  have D: "k * w div 8 \<le> L + L div s + 4"
    using k(2) kb ws(3) unfolding kw by linarith
  then have fits: "k * w div 8 + 1 \<le> length dest" unfolding len by simp
  have ex: "unat (ucast (8 + long_div (word_of_nat L) (ucast ((word_of_nat (bitsize n) :: u32) - 1))) :: u32)
       = 8 + L div s"
    unfolding s_def using assms(3,4) unfolding L_def by (rule extraspace_value)
  have "encrypt_file junk (\<lambda>_. 0) B e n
      = Inr (off_t_bytes (word_of_nat L) @ take (k * w div 8 + 1) dest)"
    using fits loop
    by (simp add: encrypt_file_def Let_def L_def[symmetric] ex malloc_zero dest0_def[symmetric] cursor_at_fst)
  then show ?thesis using k fits D blocks unfolding L_def by blast
qed

lemma bitsize_bounds:
  assumes "2 \<le> bitsize n"
  shows "2 ^ (bitsize n - 1) \<le> unat n" "unat n < 2 ^ bitsize n" "n \<noteq> 0"
proof -
  have b: "bitsize n = bitlength (unat n)" "2 \<le> unat n"
    using assms by (auto simp add: bitsize_eq split: if_splits)
  show "2 ^ (bitsize n - 1) \<le> unat n" unfolding b(1) using b(2) by (intro bitlength_ge) simp
  show "unat n < 2 ^ bitsize n" unfolding b(1) by (rule bitlength_less)
  show "n \<noteq> 0" using b(2) by auto
qed

lemma block_decrypts:
  fixes e d n :: u32
  assumes "prime_nat P" "prime_nat Q" "P \<noteq> Q" "unat n = P * Q"
    and "(unat e * unat d) mod ((P - 1) * (Q - 1)) = 1" "2 \<le> bitsize n"
  shows "ab_mod_n (cblock e n buf b) d n = Inr (field buf (b * (bitsize n - 1)) (bitsize n - 1))"
proof -
  define s where "s = bitsize n - 1"
  define m where "m = unat (field buf (b * s) s)"
  have s31: "s \<le> 32" using bitsize_le_32[of n] unfolding s_def by simp
  note nb = bitsize_bounds[OF assms(6)]
  have "m < 2 ^ s" unfolding m_def using s31 by (rule field_lt)
  then have mn: "m < unat n" using nb(1) unfolding s_def by linarith
  have "m ^ unat e mod unat n < unat n" using mn by simp
  then have "m ^ unat e mod unat n < 2 ^ LENGTH(32)" using unat_u32_lt[of n] by simp
  then have uc: "unat (cblock e n buf b) = m ^ unat e mod unat n"
    unfolding cblock_def s_def[symmetric] m_def[symmetric] by (simp add: unat_of_nat)
  have "(m ^ unat e mod (P * Q)) ^ unat d mod (P * Q) = m"
    using assms(1,2,3,5) mn unfolding assms(4) by (rule rsa_roundtrip)
  then have "unat (cblock e n buf b) ^ unat d mod unat n = m"
    unfolding uc assms(4) .
  then have "ab_mod_n (cblock e n buf b) d n = Inr (word_of_nat m)"
    using ab_mod_n_value[OF nb(3), of "cblock e n buf b" d] by simp
  then show ?thesis unfolding m_def s_def by simp
qed

lemma decrypt_file_spec:
  fixes d n :: u32 and dest plain B :: "u8 list"
  defines "w \<equiv> bitsize n" and "s \<equiv> bitsize n - 1"
  assumes "3 \<le> bitsize n" "length B < 2147483648"
    and "8 * length B \<le> k * s"
    and "k * w div 8 + 1 \<le> length dest"
    and "k * w div 8 \<le> length B + length B div s + 4"
    and "\<And>b. b < k \<Longrightarrow> ab_mod_n (field dest (b * w) w) d n = Inr (field plain (b * s) s)"
    and "\<And>i. i < 8 * length B \<Longrightarrow> getbit plain i = getbit B i"
  shows "decrypt_file junk (\<lambda>_. 0) (off_t_bytes (word_of_nat (length B)) @ take (k * w div 8 + 1) dest) d n
       = Inr B"
proof -
  define L where "L = length B"
  define D where "D = k * w div 8"
  define data where "data = take (D + 1) dest"
  define cfile where "cfile = off_t_bytes (word_of_nat L) @ data"
  have w32: "w \<le> 32" unfolding w_def by (rule bitsize_le_32)
  have ws: "w = s + 1" "2 \<le> s" "s \<le> 31" using assms(3) w32 unfolding w_def s_def by simp_all
  have b2: "2 \<le> bitsize n" using assms(3) by simp
  have lendata: "length data = D + 1" unfolding data_def D_def using assms(6) by simp
  have lencfile: "length cfile = D + 9" unfolding cfile_def by (simp add: lendata length_off_t_bytes)
  obtain slack where slack: "read_file junk cfile = cfile @ slack" "length slack = 8"
    using read_file_append[of junk cfile] by blast
  have "off_t_value (cfile @ slack) = word_of_nat L"
    unfolding cfile_def by (simp add: off_t_roundtrip)
  then have hdr: "off_t_value (read_file junk cfile) = word_of_nat L"
    by (simp only: slack(1))
  have "drop 8 (cfile @ slack) = data @ slack"
    unfolding cfile_def by (simp add: length_off_t_bytes)
  then have buf: "drop 8 (read_file junk cfile) = data @ slack"
    by (simp only: slack(1))
  have L63: "L < 9223372036854775808" using assms(4) unfolding L_def by simp
  have uL: "unat (word_of_nat L :: u64) = L" using L63 by (simp add: unat_of_nat)
  have uL8: "unat (word_of_nat L + 8 :: u64) = L + 8"
  proof -
    have "(word_of_nat L + 8 :: u64) = word_of_nat (L + 8)" by simp
    moreover have "L + 8 < 2 ^ LENGTH(64)" using L63 by simp
    ultimately show ?thesis by (simp only: unat_of_nat) simp
  qed
  have us: "unat ((word_of_nat (bitsize n) :: u32) - 1) = s"
    unfolding s_def using b2 by (intro unat_srcbits) simp
  then have ius: "uint ((word_of_nat (bitsize n) :: u32) - 1) = int s" by (metis uint_nat)
  have DL: "L \<le> D"
  proof -
    have "8 * L \<le> k * w" using assms(5) unfolding ws(1) L_def by simp
    then show ?thesis unfolding D_def by simp
  qed
  have DU: "D \<le> L + L div s + 4" using assms(7) unfolding D_def L_def .
  have half: "L div s \<le> L div 2" using ws(2) by (simp add: div_le_mono2)
  have q: "int L div int s = int (L div s)" by (simp add: zdiv_int)
  have nc: "\<not> corrupted (word_of_nat L) (D + 9) (word_of_nat (bitsize n) - 1)"
  proof -
    have "corrupted (word_of_nat L) (D + 9) (word_of_nat (bitsize n) - 1)
       = (int L - (int (D + 9) - 8) < - (int L div uint ((word_of_nat (bitsize n) :: u32) - 1) + 9)
          \<or> int L div uint ((word_of_nat (bitsize n) :: u32) - 1) + 9 < int L - (int (D + 9) - 8))"
    proof (rule corrupted_small[OF L63])
      show "- 2147483648 \<le> int L - (int (D + 9) - 8)" using DU half assms(4) unfolding L_def[symmetric] by linarith
      show "int L - (int (D + 9) - 8) < 2147483648" using DL by linarith
      show "int L div uint ((word_of_nat (bitsize n) :: u32) - 1) + 9 < 2147483648"
        unfolding ius q using half assms(4) unfolding L_def[symmetric] by linarith
    qed
    also have "\<dots> = False" unfolding ius q using DL DU by simp
    finally show ?thesis by simp
  qed
  have room: "k * w + 64 \<le> 8 * length (data @ slack)"
  proof -
    have "k * w < 8 * (D + 1)" unfolding D_def by (simp add: dividend_less_times_div)
    then show ?thesis by (simp add: lendata slack(2))
  qed
  have blk: "ab_mod_n (field (data @ slack) (b * w) w) d n = Inr (field plain (b * s) s)" if b: "b < k" for b
  proof -
    have "Suc b * w \<le> k * w" using b by (intro mult_le_mono1) simp
    moreover have "k * w < 8 * (D + 1)" unfolding D_def by (simp add: dividend_less_times_div)
    ultimately have lim: "b * w + w < 8 * (D + 1)" by simp
    have "field (data @ slack) (b * w) w = field dest (b * w) w"
    proof (rule field_cong)
      fix j assume "j < w"
      then have i: "b * w + j < 8 * (D + 1)" using lim by simp
      then have "getbit (data @ slack) (b * w + j) = getbit data (b * w + j)"
        by (intro getbit_append) (simp add: lendata)
      also have "\<dots> = getbit dest (b * w + j)" unfolding data_def using i by (rule getbit_take)
      finally show "getbit (data @ slack) (b * w + j) = getbit dest (b * w + j)" .
    qed
    then show ?thesis using assms(8)[OF b] by simp
  qed
  have c0: "cursor_at 0 = (0, 0)" by (simp add: cursor_at_def)
  have "\<exists>dst' cur. decrypt_loop d n (data @ slack) (cursor_at (0 * w)) (replicate (L + 8) 0) (cursor_at (0 * s)) L
            = Inr (dst', cur)
          \<and> length dst' = length (replicate (L + 8) (0::u8))
          \<and> (\<forall>i<0 * s. getbit dst' i = getbit (replicate (L + 8) 0) i)
          \<and> (\<forall>i. 0 * s \<le> i \<and> i < 8 * L \<longrightarrow> getbit dst' i = getbit plain i)"
    unfolding w_def s_def
  proof (rule decrypt_loop_spec[where k = k])
    show "2 \<le> bitsize n" by (rule b2)
    show "k * bitsize n + 64 \<le> 8 * length (data @ slack)" using room unfolding w_def .
    show "8 * L \<le> k * (bitsize n - 1)" using assms(5) unfolding s_def L_def .
    show "ab_mod_n (field (data @ slack) (b * bitsize n) (bitsize n)) d n
        = Inr (field plain (b * (bitsize n - 1)) (bitsize n - 1))" if "b < k" for b
      using blk[OF that] unfolding w_def s_def .
    show "length (replicate (L + 8) (0::u8)) = L + 8" by simp
    show "0 * (bitsize n - 1) < 8 * L + 8 + (bitsize n - 1)" by simp
    show "\<not> getbit (replicate (L + 8) 0) i" if "i < 8 * length (replicate (L + 8) (0::u8))" for i
      using that by (simp add: getbit_replicate_0)
  qed
  then obtain dst' cur where loop: "decrypt_loop d n (data @ slack) (0, 0) (replicate (L + 8) 0) (0, 0) L = Inr (dst', cur)"
    and len': "length dst' = L + 8"
    and bits: "\<And>i. i < 8 * L \<Longrightarrow> getbit dst' i = getbit plain i"
    by (auto simp add: c0)
  have "take L dst' = B"
  proof (rule bytes_eqI)
    show "length (take L dst') = length B" using len' unfolding L_def by simp
    fix i assume "i < 8 * length (take L dst')"
    then have i: "i < 8 * L" using len' by simp
    then have "getbit (take L dst') i = getbit dst' i" by (rule getbit_take)
    also have "\<dots> = getbit plain i" using i by (rule bits)
    also have "\<dots> = getbit B i" using i unfolding L_def by (rule assms(9))
    finally show "getbit (take L dst') i = getbit B i" .
  qed
  moreover have "cfile \<noteq> []" using lencfile by auto
  ultimately have "decrypt_file junk (\<lambda>_. 0) cfile d n = Inr B"
    using nc loop
    by (simp add: decrypt_file_def Let_def hdr buf lencfile uL uL8 malloc_zero)
  then show ?thesis unfolding cfile_def data_def D_def L_def by simp
qed

section \<open>Encrypting and decrypting a file\<close>

lemma prime_nat_ge_2: "prime_nat p \<Longrightarrow> 2 \<le> p"
  by (simp add: prime_nat_def)

lemma bitsize_ge_3: "4 \<le> unat n \<Longrightarrow> 3 \<le> bitsize n"
proof -
  assume a: "4 \<le> unat n"
  have "unat n < 2 ^ bitlength (unat n)" by (rule bitlength_less)
  then have "(2::nat) ^ 2 < 2 ^ bitlength (unat n)" using a by simp
  then have "2 < bitlength (unat n)" by (simp only: power_strict_increasing_iff) 
  then show ?thesis using a by (simp add: bitsize_eq)
qed

text \<open>
  The round trip where the arithmetic of the code is exact. Let \<open>p\<close> and \<open>q\<close> be two
  different primes for which \<open>generate_keys\<close> prints the key \<open>e\<close>, \<open>n\<close>, \<open>d\<close>, with
  \<open>(p - 1) * (q - 1)\<close> below \<open>2^31\<close>, and let \<open>B\<close> be a file of fewer than \<open>2^31\<close> bytes. When the
  blocks that \<open>malloc\<close> hands out for the encrypted and for the decrypted data are filled
  with zeros, \<open>encrypt_file\<close> with \<open>e\<close>, \<open>n\<close> succeeds and \<open>decrypt_file\<close> with \<open>d\<close>, \<open>n\<close> turns
  its result back into \<open>B\<close>, byte for byte and of the same length. What lies behind the
  file in the block \<open>read_file\<close> allocates does not matter.
\<close>

lemma encrypt_decrypt_roundtrip:
  assumes "prime_nat (unat p)" "prime_nat (unat q)" "p \<noteq> q"
    and "generate_keys p q = Inr (e, n, d)"
    and "(unat p - 1) * (unat q - 1) < 2147483648"
    and "length B < 2147483648"
  shows "\<exists>c. encrypt_file junk (\<lambda>_. 0) B e n = Inr c \<and> decrypt_file junk' (\<lambda>_. 0) c d n = Inr B"
proof -
  define P Q where "P = unat p" and "Q = unat q"
  have pq: "2 \<le> P" "2 \<le> Q" "P \<noteq> Q"
    using assms(1,2,3) unfolding P_def Q_def by (simp_all add: prime_nat_ge_2 word_unat_eq_iff)
  then have "3 \<le> P \<or> 3 \<le> Q" by linarith
  then have "2 \<le> (P - 1) * (Q - 1)"
  proof
    assume "3 \<le> P"
    then have "2 * 1 \<le> (P - 1) * (Q - 1)" using pq(2) by (intro mult_mono) simp_all
    then show ?thesis by simp
  next
    assume "3 \<le> Q"
    then have "1 * 2 \<le> (P - 1) * (Q - 1)" using pq(1) by (intro mult_mono) simp_all
    then show ?thesis by simp
  qed
  then have f1: "1 < (unat p - 1) * (unat q - 1)" unfolding P_def Q_def by simp
  have un: "unat n = P * Q"
    using generate_keys_modulus(1)[OF assms(4)] pq(1,2) unfolding P_def Q_def by simp
  have ed: "(unat e * unat d) mod ((P - 1) * (Q - 1)) = 1"
    using generate_keys_spec[OF assms(4) _ _ f1 assms(5)] pq(1,2) unfolding P_def Q_def by simp
  have "2 * 2 \<le> P * Q" using pq(1,2) by (intro mult_mono) simp_all
  then have b3: "3 \<le> bitsize n" using un by (intro bitsize_ge_3) simp
  then have b2: "2 \<le> bitsize n" by simp
  from encrypt_file_spec[OF b2 assms(6), of junk e]
  obtain dest k where enc: "encrypt_file junk (\<lambda>_. 0) B e n
             = Inr (off_t_bytes (word_of_nat (length B)) @ take (k * bitsize n div 8 + 1) dest)"
    and k: "8 * length B \<le> k * (bitsize n - 1)"
    and fits: "k * bitsize n div 8 + 1 \<le> length dest"
    and D: "k * bitsize n div 8 \<le> length B + length B div (bitsize n - 1) + 4"
    and blocks: "\<And>b. b < k \<Longrightarrow> field dest (b * bitsize n) (bitsize n) = cblock e n (read_file junk B) b"
    by blast
  have "decrypt_file junk' (\<lambda>_. 0)
          (off_t_bytes (word_of_nat (length B)) @ take (k * bitsize n div 8 + 1) dest) d n = Inr B"
  proof (rule decrypt_file_spec[OF b3 assms(6) k fits D, where plain = "read_file junk B"])
    fix b assume "b < k"
    then show "ab_mod_n (field dest (b * bitsize n) (bitsize n)) d n
        = Inr (field (read_file junk B) (b * (bitsize n - 1)) (bitsize n - 1))"
      using block_decrypts[OF assms(1,2) pq(3)[unfolded P_def Q_def] un[unfolded P_def Q_def] ed[unfolded P_def Q_def] b2]
      by (simp add: blocks)
  next
    fix i assume "i < 8 * length B"
    then show "getbit (read_file junk B) i = getbit B i"
      using read_file_append[of junk B] by (auto simp add: getbit_append)
  qed
  with enc show ?thesis by simp
qed

text \<open>The primes 5 and 7 give \<open>e = 5\<close>, \<open>n = 35\<close>, \<open>d = 5\<close>; the file holds three bytes.\<close>

lemma encrypt_decrypt_roundtrip_example:
  "prime_nat (unat (5::u32)) \<and> prime_nat (unat (7::u32)) \<and> (5::u32) \<noteq> 7
   \<and> generate_keys 5 7 = Inr (5, 35, 5)
   \<and> (unat (5::u32) - 1) * (unat (7::u32) - 1) < 2147483648
   \<and> length [82, 83, 65 :: u8] < 2147483648
   \<and> (\<exists>c. encrypt_file (\<lambda>_. 255) (\<lambda>_. 0) [82, 83, 65] 5 35 = Inr c
          \<and> decrypt_file (\<lambda>_. 170) (\<lambda>_. 0) c 5 35 = Inr [82, 83, 65])"
proof -
  have p: "prime_nat (unat (5::u32))" "prime_nat (unat (7::u32))"
    by (simp_all add: prime_nat_def upt_rec)
  have g: "generate_keys 5 7 = Inr (5, 35, 5)"
    by (simp add: generate_keys_def bitsize_eq bitlength.simps generate_keys_loop.simps
        check_gcd_def check_gcd_loop.simps int_div_def)
  show ?thesis
    using encrypt_decrypt_roundtrip[OF p _ g, of "[82, 83, 65]" "\<lambda>_. 255" "\<lambda>_. 170"] p g
    by simp
qed

lemma primes_65519_65521: "prime_nat (unat (65519::u32)) \<and> prime_nat (unat (65521::u32))"
proof -
  have "is_prime 65519 = 1" "is_prime 65521 = 1"
    by (simp_all add: is_prime_def sqrt_floor.simps sqrt_step_def is_prime_loop.simps)
  then show ?thesis
    using is_prime_correct[of 65519] is_prime_correct[of 65521] by (simp split: if_splits)
qed

text \<open>
  C1. For every key that \<open>generate_keys\<close> derives from primes \<open>p\<close>, \<open>q\<close> that pass the overflow
  check, and for every file \<open>B\<close>, decrypting the encrypted file is meant to give \<open>B\<close> back.
  The different primes 65519 and 65521 pass the check (16 bits each); their totient
  4292739360 does not fit an \<open>int\<close>, and the key printed is \<open>e = 9\<close>, \<open>n = 4292870399\<close>,
  \<open>d = 495097\<close>, where 9 divides the totient. The file of the single byte 2 is encrypted
  to the length 1 followed by the block \<open>2^9 = 512\<close>, and that is decrypted to the byte 20.
\<close>

theorem roundtrip_fails_large_primes:
  "prime_nat (unat (65519::u32)) \<and> prime_nat (unat (65521::u32))
   \<and> generate_keys 65519 65521 = Inr (9, 4292870399, 495097)
   \<and> encrypt_file (\<lambda>_. 0) (\<lambda>_. 0) [2] 9 4292870399
       = Inr [1, 0, 0, 0, 0, 0, 0, 0, 0, 2, 0, 0, 0]
   \<and> decrypt_file (\<lambda>_. 0) (\<lambda>_. 0) [1, 0, 0, 0, 0, 0, 0, 0, 0, 2, 0, 0, 0] 495097 4292870399
       = Inr [20]"
proof -
  have "generate_keys 65519 65521 = Inr (9, 4292870399, 495097)
   \<and> encrypt_file (\<lambda>_. 0) (\<lambda>_. 0) [2] 9 4292870399
       = Inr [1, 0, 0, 0, 0, 0, 0, 0, 0, 2, 0, 0, 0]
   \<and> decrypt_file (\<lambda>_. 0) (\<lambda>_. 0) [1, 0, 0, 0, 0, 0, 0, 0, 0, 2, 0, 0, 0] 495097 4292870399
       = Inr [20]"
    by code_simp
  with primes_65519_65521 show ?thesis by blast
qed

end
